theory Spec2Isabelle
  imports Main
begin

section \<open>Requests, thrown values and extracted payloads\<close>

text \<open>
  \<^verbatim>\<open>types/crawl.ts\<close>: a request names a category (a closed union of six string literals),
  a site and a target address. The optional tuning fields only configure the external
  crawler and play no part in the control flow modelled here.
\<close>

datatype category = news | hotels | restaurant | attraction | maps | landmarks

record request =
  category :: category
  site :: string
  url :: string

fun categoryName :: "category \<Rightarrow> string" where
  "categoryName news = ''news''"
| "categoryName hotels = ''hotels''"
| "categoryName restaurant = ''restaurant''"
| "categoryName attraction = ''attraction''"
| "categoryName maps = ''maps''"
| "categoryName landmarks = ''landmarks''"

text \<open>
  A JavaScript \<^verbatim>\<open>throw\<close> carries any value. The code only ever asks whether the value
  is an \<^verbatim>\<open>Error\<close> instance and, if so, for its message.
\<close>

datatype thrown = ErrorObject string | OtherValue

text \<open>\<^verbatim>\<open>error instanceof Error ? error.message : 'Unknown error'\<close>\<close>

definition errorMessageOf :: "thrown \<Rightarrow> string" where
  "errorMessageOf e = (case e of ErrorObject m \<Rightarrow> m | OtherValue \<Rightarrow> ''Unknown error'')"

text \<open>
  What a handler hands back at run time: nothing (\<^verbatim>\<open>undefined\<close> or \<^verbatim>\<open>null\<close>), one item, or
  an array of items. Items are opaque to the orchestrator; a string stands for one.
\<close>

type_synonym item = string

datatype result_value = Undefined | Single item | Many "item list"

text \<open>
  JavaScript truthiness of such a value, as tested by \<^verbatim>\<open>if (!result)\<close>: only
  \<^verbatim>\<open>undefined\<close>/\<^verbatim>\<open>null\<close> are falsy. Every object is truthy, and so is every array, the
  empty one included.
\<close>

fun truthy :: "result_value \<Rightarrow> bool" where
  "truthy Undefined = False"
| "truthy (Single x) = True"
| "truthy (Many xs) = True"

section \<open>Stream events\<close>

text \<open>
  \<^verbatim>\<open>StreamEvent\<close> is a union discriminated by \<^verbatim>\<open>type\<close>. Optional number fields are options.
\<close>

datatype event_body =
    ProgressEv string "int option"
  | DataEv result_value "int option" "int option"
  | ErrorEv string
  | CompleteEv "nat option" "int option"

datatype event_type = progress_type | data_type | error_type | complete_type

fun typeOf :: "event_body \<Rightarrow> event_type" where
  "typeOf (ProgressEv m p) = progress_type"
| "typeOf (DataEv d i t) = data_type"
| "typeOf (ErrorEv m) = error_type"
| "typeOf (CompleteEv n d) = complete_type"

text \<open>
  An event as the sink receives it (\<^verbatim>\<open>BaseStreamEvent\<close>: \<^verbatim>\<open>requestId\<close> and \<^verbatim>\<open>timestamp\<close>
  present), and an event as a site handler raises it: \<^verbatim>\<open>StreamCallback\<close> accepts both
  \<^verbatim>\<open>StreamEvent\<close> and \<^verbatim>\<open>PartialStreamEvent\<close>, so the two fields may or may not be there.
\<close>

record stream_event =
  body :: event_body
  requestId :: string
  timestamp :: int

record handler_event =
  hBody :: event_body
  hRequestId :: "string option"
  hTimestamp :: "int option"

section \<open>The environment of one run\<close>

text \<open>
  The Playwright crawler, the page and the site handlers are external. Their behaviour
  during one run is an input of the model:
  \<^item> \<open>attempts\<close>: the invocations of \<^verbatim>\<open>requestHandler\<close> that \<^verbatim>\<open>crawler.run\<close> makes, in order.
    In each one either \<^verbatim>\<open>page.goto\<close> throws, or the site handler runs, raises events
    through the callback it was given and then throws or returns a value;
  \<^item> \<open>runRejects\<close>: whether the promise of \<^verbatim>\<open>crawler.run\<close> finally rejects, and with what.
    Nothing ties it to the attempts: a crawler that rethrows the handler's error and one
    that retries and swallows it are both instances;
  \<^item> \<open>clock\<close>: the value of the \<open>k\<close>-th \<^verbatim>\<open>Date.now()\<close> of the run;
  \<^item> \<open>persistThrows\<close>: whether the persistence handler (a call to the admin API) throws.
  The request handler is taken to run only while \<^verbatim>\<open>crawler.run\<close> is pending, one
  invocation at a time (the crawler is configured with \<^verbatim>\<open>maxConcurrency: 1\<close>).
\<close>

datatype extract_outcome = Throws thrown | Returns result_value

datatype attempt = NavigationFails thrown | Extraction "handler_event list" extract_outcome

record crawler_env =
  attempts :: "attempt list"
  runRejects :: "thrown option"
  clock :: "nat \<Rightarrow> int"
  persistThrows :: "thrown option"

section \<open>Handler tables\<close>

text \<open>
  Each crawler class passes object literals to the \<^verbatim>\<open>BaseCrawler\<close> constructor; the list and
  detail tables default to \<^verbatim>\<open>{}\<close>. These are the own keys of those literals.
\<close>

datatype mode = SingleMode | ListMode | DetailMode

fun siteHandlers :: "category \<Rightarrow> string list" where
  "siteHandlers news = [''vnexpress'', ''tuoitre'']"
| "siteHandlers hotels = [''booking'', ''agoda'', ''traveloka'', ''googlemaps'',
     ''googletravel'', ''klook'', ''mytour'', ''ivivu'']"
| "siteHandlers restaurant = [''foody'', ''googlemaps'']"
| "siteHandlers attraction = [''tripadvisor'']"
| "siteHandlers maps = [''googlemaps'']"
| "siteHandlers landmarks = [''googlemaps'']"

fun listHandlers :: "category \<Rightarrow> string list" where
  "listHandlers hotels = [''booking'', ''googlemaps'', ''googletravel'']"
| "listHandlers restaurant = [''googlemaps'']"
| "listHandlers c = []"

fun detailHandlers :: "category \<Rightarrow> string list" where
  "detailHandlers hotels = [''booking'']"
| "detailHandlers c = []"

fun handlerTable :: "mode \<Rightarrow> category \<Rightarrow> string list" where
  "handlerTable SingleMode c = siteHandlers c"
| "handlerTable ListMode c = listHandlers c"
| "handlerTable DetailMode c = detailHandlers c"

text \<open>
  \<^verbatim>\<open>this.siteHandlers[request.site]\<close> is a property read on a plain object. A key that is
  not an own property is looked up on \<^verbatim>\<open>Object.prototype\<close>, whose properties are all
  functions or objects, hence truthy.
\<close>

definition objectPrototypeKeys :: "string list" where
  "objectPrototypeKeys = [''constructor'', ''__proto__'', ''hasOwnProperty'',
     ''isPrototypeOf'', ''propertyIsEnumerable'', ''toLocaleString'', ''toString'',
     ''valueOf'', ''__defineGetter__'', ''__defineSetter__'', ''__lookupGetter__'',
     ''__lookupSetter__'']"

text \<open>Whether \<^verbatim>\<open>table[site]\<close> is truthy, that is, whether \<^verbatim>\<open>if (!handler)\<close> lets the run go on.\<close>

definition handlerFound :: "string list \<Rightarrow> string \<Rightarrow> bool" where
  "handlerFound table s = (s \<in> set table \<or> s \<in> set objectPrototypeKeys)"

section \<open>The run orchestrator (\<^verbatim>\<open>BaseCrawler\<close>)\<close>

text \<open>The three entry points differ in their table and in these texts.\<close>

definition quote :: "string \<Rightarrow> string" where
  "quote s = [CHR 0x27] @ s @ [CHR 0x27]"

fun unsupportedMessage :: "mode \<Rightarrow> request \<Rightarrow> string" where
  "unsupportedMessage SingleMode r =
     ''Unsupported site '' @ quote (site r) @ '' for category '' @ categoryName (category r)"
| "unsupportedMessage ListMode r =
     ''Unsupported site '' @ quote (site r) @ '' for list crawl in category ''
       @ categoryName (category r)"
| "unsupportedMessage DetailMode r =
     ''Unsupported site '' @ quote (site r) @ '' for detail crawl in category ''
       @ categoryName (category r) @ '' ''"

fun startingMessage :: "mode \<Rightarrow> request \<Rightarrow> string" where
  "startingMessage SingleMode r = ''Starting crawl for '' @ site r @ ''...''"
| "startingMessage ListMode r = ''Starting list crawl for '' @ site r @ ''...''"
| "startingMessage DetailMode r = ''Starting detail crawl for '' @ site r @ ''...''"

fun completedMessage :: "mode \<Rightarrow> string" where
  "completedMessage SingleMode = ''Crawl completed''"
| "completedMessage ListMode = ''Crawl list completed''"
| "completedMessage DetailMode = ''Crawl detail completed''"

fun failedMessage :: "mode \<Rightarrow> request \<Rightarrow> string" where
  "failedMessage SingleMode r = ''Failed to crawl data for site '' @ quote (site r)"
| "failedMessage ListMode r = ''Failed to crawl list data for site '' @ quote (site r)"
| "failedMessage DetailMode r = ''Failed to crawl detail data for site '' @ quote (site r)"

text \<open>
  \<^verbatim>\<open>totalItems\<close> of the complete event: \<^verbatim>\<open>Array.isArray(result) ? result.length : 1\<close> in
  \<^verbatim>\<open>crawl\<close>, \<^verbatim>\<open>result.length\<close> in \<^verbatim>\<open>crawlList\<close> (undefined on a value that is no array),
  the constant 1 in \<^verbatim>\<open>crawlDetail\<close>.
\<close>

fun totalItems :: "mode \<Rightarrow> result_value \<Rightarrow> nat option" where
  "totalItems SingleMode (Many xs) = Some (length xs)"
| "totalItems SingleMode v = Some 1"
| "totalItems ListMode (Many xs) = Some (length xs)"
| "totalItems ListMode v = None"
| "totalItems DetailMode v = Some 1"

text \<open>
  The mutable state of one run: what the sink has received so far, how many times the
  clock has been read, and the closure variable \<^verbatim>\<open>result\<close>.
\<close>

record run_state =
  delivered :: "stream_event list"
  reads :: nat
  result :: result_value

text \<open>
  \<^verbatim>\<open>emitEvent\<close>: with a sink, stamp the event with the run's \<^verbatim>\<open>requestId\<close> and
  \<^verbatim>\<open>Date.now()\<close> and hand it over; without one, do nothing.
\<close>

definition emitEvent ::
  "bool \<Rightarrow> (nat \<Rightarrow> int) \<Rightarrow> string \<Rightarrow> event_body \<Rightarrow> run_state \<Rightarrow> run_state" where
  "emitEvent onStream ck rid b st =
     (if onStream
      then st\<lparr>delivered := delivered st @
                 [\<lparr>body = b, requestId = rid, timestamp = ck (reads st)\<rparr>],
              reads := Suc (reads st)\<rparr>
      else st)"

text \<open>
  \<^verbatim>\<open>wrappedStreamCallback\<close>, the callback given to the site handler:
  \<^verbatim>\<open>requestId: event.requestId || requestId\<close> and
  \<^verbatim>\<open>timestamp: event.timestamp || Date.now()\<close>. The operator \<^verbatim>\<open>||\<close> keeps a truthy left
  operand (a non-empty string, a non-zero number) and evaluates the right one otherwise.
\<close>

definition orRequestId :: "handler_event \<Rightarrow> string \<Rightarrow> string" where
  "orRequestId ev rid = (case hRequestId ev of None \<Rightarrow> rid | Some r \<Rightarrow> if r = [] then rid else r)"

definition orTimestamp :: "handler_event \<Rightarrow> int \<Rightarrow> int" where
  "orTimestamp ev now = (case hTimestamp ev of None \<Rightarrow> now | Some t \<Rightarrow> if t = 0 then now else t)"

definition readsClock :: "handler_event \<Rightarrow> bool" where
  "readsClock ev = (case hTimestamp ev of None \<Rightarrow> True | Some t \<Rightarrow> t = 0)"

definition wrappedStreamCallback ::
  "bool \<Rightarrow> (nat \<Rightarrow> int) \<Rightarrow> string \<Rightarrow> handler_event \<Rightarrow> run_state \<Rightarrow> run_state" where
  "wrappedStreamCallback onStream ck rid ev st =
     (if onStream
      then st\<lparr>delivered := delivered st @
                 [\<lparr>body = hBody ev, requestId = orRequestId ev rid,
                   timestamp = orTimestamp ev (ck (reads st))\<rparr>],
              reads := (if readsClock ev then Suc (reads st) else reads st)\<rparr>
      else st)"

text \<open>
  One invocation of \<^verbatim>\<open>requestHandler\<close>. Progress 10, \<^verbatim>\<open>page.goto\<close>, progress 30,
  \<^verbatim>\<open>smartWait\<close> (timers only, it cannot throw), progress 50, the site handler, and after a
  normal return the assignment to \<^verbatim>\<open>result\<close> and progress 100. An exception is logged and
  rethrown to the crawler, which owns what happens next.
\<close>

fun requestHandler ::
  "mode \<Rightarrow> bool \<Rightarrow> (nat \<Rightarrow> int) \<Rightarrow> string \<Rightarrow> attempt \<Rightarrow> run_state \<Rightarrow> run_state" where
  "requestHandler m onStream ck rid (NavigationFails e) st =
     emitEvent onStream ck rid (ProgressEv ''Loading page...'' (Some 10)) st"
| "requestHandler m onStream ck rid (Extraction evs out) st =
     (let st1 = emitEvent onStream ck rid (ProgressEv ''Loading page...'' (Some 10)) st;
          st2 = emitEvent onStream ck rid
                  (ProgressEv ''Page loaded, extracting data...'' (Some 30)) st1;
          st3 = emitEvent onStream ck rid (ProgressEv ''Processing data...'' (Some 50)) st2;
          st4 = fold (wrappedStreamCallback onStream ck rid) evs st3
      in case out of
           Throws e \<Rightarrow> st4
         | Returns v \<Rightarrow>
             emitEvent onStream ck rid (ProgressEv (completedMessage m) (Some 100))
               (st4\<lparr>result := v\<rparr>))"

text \<open>
  The outcome of an entry point: the events the sink received before the first
  suspension (\<^verbatim>\<open>await crawler.run(...)\<close>) and those it received after it; the number of
  \<^verbatim>\<open>PlaywrightCrawler\<close> instances constructed; and the settlement of the returned promise
  (\<open>Inl\<close> rejects).
\<close>

record run =
  syncEvents :: "stream_event list"
  laterEvents :: "stream_event list"
  contexts :: nat
  outcome :: "thrown + result_value"

definition events :: "run \<Rightarrow> stream_event list" where
  "events r = syncEvents r @ laterEvents r"

text \<open>
  The part before \<^verbatim>\<open>await crawler.run\<close>: the handler lookup, \<^verbatim>\<open>startTime = Date.now()\<close>
  (clock read number 0), the \<^verbatim>\<open>requestId\<close> (drawn by the caller of this model from
  \<^verbatim>\<open>randomUUID\<close>), and the first progress event.
\<close>

definition crawlStart ::
  "mode \<Rightarrow> request \<Rightarrow> bool \<Rightarrow> string \<Rightarrow> crawler_env \<Rightarrow> thrown + run_state" where
  "crawlStart m req onStream rid env =
     (if \<not> handlerFound (handlerTable m (category req)) (site req)
      then Inl (ErrorObject (unsupportedMessage m req))
      else Inr (emitEvent onStream (clock env) rid
                  (ProgressEv (startingMessage m req) (Some 0))
                  \<lparr>delivered = [], reads = 1, result = Undefined\<rparr>))"

text \<open>
  From \<^verbatim>\<open>crawler.run\<close> to the end. The \<^verbatim>\<open>throw\<close> for a missing result sits inside the
  \<^verbatim>\<open>try\<close>, so it reaches the same \<^verbatim>\<open>catch\<close> as a rejection of \<^verbatim>\<open>crawler.run\<close>: an error
  event, then the error again.
\<close>

definition crawlFail ::
  "bool \<Rightarrow> (nat \<Rightarrow> int) \<Rightarrow> string \<Rightarrow> thrown \<Rightarrow> run_state \<Rightarrow> run_state \<times> (thrown + result_value)" where
  "crawlFail onStream ck rid e st =
     (emitEvent onStream ck rid (ErrorEv (errorMessageOf e)) st, Inl e)"

definition crawlAwait ::
  "mode \<Rightarrow> request \<Rightarrow> bool \<Rightarrow> string \<Rightarrow> crawler_env \<Rightarrow> run_state
     \<Rightarrow> run_state \<times> (thrown + result_value)" where
  "crawlAwait m req onStream rid env st0 =
     (let st = fold (requestHandler m onStream (clock env) rid) (attempts env) st0
      in case runRejects env of
           Some e \<Rightarrow> crawlFail onStream (clock env) rid e st
         | None \<Rightarrow>
             if \<not> truthy (result st)
             then crawlFail onStream (clock env) rid (ErrorObject (failedMessage m req)) st
             else (emitEvent onStream (clock env) rid
                     (CompleteEv (totalItems m (result st))
                        (Some (clock env (reads st) - clock env 0)))
                     (st\<lparr>reads := Suc (reads st)\<rparr>),
                   Inr (result st)))"

definition orchestrate ::
  "mode \<Rightarrow> request \<Rightarrow> bool \<Rightarrow> string \<Rightarrow> crawler_env \<Rightarrow> run" where
  "orchestrate m req onStream rid env =
     (case crawlStart m req onStream rid env of
        Inl e \<Rightarrow> \<lparr>syncEvents = [], laterEvents = [], contexts = 0, outcome = Inl e\<rparr>
      | Inr st0 \<Rightarrow>
          (case crawlAwait m req onStream rid env (st0\<lparr>delivered := []\<rparr>) of
             (st, out) \<Rightarrow>
               \<lparr>syncEvents = delivered st0, laterEvents = delivered st,
                contexts = 1, outcome = out\<rparr>))"

definition crawl :: "request \<Rightarrow> bool \<Rightarrow> string \<Rightarrow> crawler_env \<Rightarrow> run" where
  "crawl = orchestrate SingleMode"

definition crawlList :: "request \<Rightarrow> bool \<Rightarrow> string \<Rightarrow> crawler_env \<Rightarrow> run" where
  "crawlList = orchestrate ListMode"

definition crawlDetail :: "request \<Rightarrow> bool \<Rightarrow> string \<Rightarrow> crawler_env \<Rightarrow> run" where
  "crawlDetail = orchestrate DetailMode"

text \<open>
  Two readings of the environment used to state properties: the events a site handler
  raises in an attempt, and the value the attempts leave in the variable \<^verbatim>\<open>result\<close>
  (only a normal return of the site handler assigns it).
\<close>

fun raised :: "attempt \<Rightarrow> handler_event list" where
  "raised (NavigationFails e) = []"
| "raised (Extraction evs out) = evs"

fun assigned :: "attempt \<Rightarrow> result_value \<Rightarrow> result_value" where
  "assigned (Extraction evs (Returns v)) old = v"
| "assigned a old = old"

definition resultAfter :: "crawler_env \<Rightarrow> result_value" where
  "resultAfter env = fold assigned (attempts env) Undefined"

section \<open>\<^verbatim>\<open>PersistenceService\<close> and \<^verbatim>\<open>CrawlService\<close>\<close>

text \<open>The categories with an entry in \<^verbatim>\<open>PersistenceService.handlers\<close>.\<close>

fun persistHandlers :: "category \<Rightarrow> bool" where
  "persistHandlers hotels = True"
| "persistHandlers maps = True"
| "persistHandlers landmarks = True"
| "persistHandlers restaurant = True"
| "persistHandlers c = False"

text \<open>
  The settlement of \<^verbatim>\<open>handler(request, data)\<close>, a call to the admin API that the
  environment decides.
\<close>

definition persistHandler :: "request \<Rightarrow> result_value \<Rightarrow> crawler_env \<Rightarrow> thrown + unit" where
  "persistHandler req data env = (case persistThrows env of None \<Rightarrow> Inr () | Some e \<Rightarrow> Inl e)"

text \<open>
  \<^verbatim>\<open>persist\<close>: without a handler return at once; otherwise await the handler inside
  \<^verbatim>\<open>try\<close>, and in \<^verbatim>\<open>catch\<close> log what it threw. The first component is the settlement of
  the promise \<^verbatim>\<open>persist\<close> returns, the second the error that was logged, if any.
\<close>

definition persist ::
  "request \<Rightarrow> result_value \<Rightarrow> crawler_env \<Rightarrow> (thrown + unit) \<times> thrown option" where
  "persist req data env =
     (if \<not> persistHandlers (category req) then (Inr (), None)
      else (case persistHandler req data env of
              Inr u \<Rightarrow> (Inr (), None)
            | Inl e \<Rightarrow> (Inr (), Some e)))"

text \<open>
  \<^verbatim>\<open>CrawlService.crawl\<close>: every category has a crawler, so the guard on a missing crawler
  never fires for a well-typed request. The crawler's \<^verbatim>\<open>crawl\<close> is awaited, then
  \<^verbatim>\<open>persist\<close>, then the data is returned. The second component is the persistence error
  that was logged.
\<close>

definition serviceCrawl ::
  "request \<Rightarrow> bool \<Rightarrow> string \<Rightarrow> crawler_env \<Rightarrow> run \<times> thrown option" where
  "serviceCrawl req onStream rid env =
     (let r = crawl req onStream rid env
      in case outcome r of
           Inl e \<Rightarrow> (r, None)
         | Inr data \<Rightarrow>
             (case persist req data env of
                (Inl e, logged) \<Rightarrow> (r\<lparr>outcome := Inl e\<rparr>, logged)
              | (Inr u, logged) \<Rightarrow> (r, logged)))"

section \<open>The job registry and its queue (\<^verbatim>\<open>CrawlJobService\<close>)\<close>

datatype crawlJobStatus = Queued | Running | Done | Error

record crawlJobRecord =
  jobId :: string
  status :: crawlJobStatus
  progress :: int
  currentStep :: "string option"
  createdAt :: int
  startedAt :: "int option"
  finishedAt :: "int option"
  errorMessage :: "string option"
  params :: request

text \<open>
  An invocation of \<^verbatim>\<open>processQueue\<close> is suspended at \<^verbatim>\<open>await this.runJob(jobId)\<close>. Either
  \<^verbatim>\<open>runJob\<close> itself waits for the crawl of a job, which will still deliver some events and
  then settle, or \<^verbatim>\<open>runJob\<close> found no record and has already returned.
\<close>

datatype suspended =
    AwaitingCrawl string "stream_event list" "thrown + result_value"
  | AwaitingReturn

text \<open>
  The singleton's fields, the suspended invocations of \<^verbatim>\<open>processQueue\<close>, and how many
  values have been drawn from \<^verbatim>\<open>randomUUID\<close> and from \<^verbatim>\<open>new Date()\<close>.
\<close>

record service =
  jobs :: "string \<rightharpoonup> crawlJobRecord"
  results :: "string \<rightharpoonup> result_value"
  queue :: "string list"
  isProcessing :: bool
  workers :: "suspended list"
  uuidReads :: nat
  dateReads :: nat

text \<open>
  What the process does not decide: the \<open>k\<close>-th value of \<^verbatim>\<open>randomUUID()\<close>, the \<open>k\<close>-th
  reading of the date, and what crawler, page, site handler and admin API do while a
  given job runs.

  A job record is an object shared by the map and by the closure of \<^verbatim>\<open>runJob\<close>. The
  model keeps records by value under their id and lets \<^verbatim>\<open>runJob\<close> write to the entry of
  its id. This is the same thing as long as no entry is replaced, that is, as long as
  \<^verbatim>\<open>randomUUID\<close> never returns a value twice; the theorems below assume that of \<open>uuid\<close>.
\<close>

record world =
  uuid :: "nat \<Rightarrow> string"
  date :: "nat \<Rightarrow> int"
  behaviour :: "string \<Rightarrow> crawler_env"

definition initial :: service where
  "initial = \<lparr>jobs = Map.empty, results = Map.empty, queue = [], isProcessing = False,
     workers = [], uuidReads = 0, dateReads = 0\<rparr>"

text \<open>The \<^verbatim>\<open>switch\<close> of \<^verbatim>\<open>handleStreamEvent\<close> on one job record.\<close>

fun foldEvent :: "event_body \<Rightarrow> crawlJobRecord \<Rightarrow> crawlJobRecord" where
  "foldEvent (ProgressEv m p) job =
     job\<lparr>progress := (case p of Some n \<Rightarrow> n | None \<Rightarrow> progress job),
         currentStep := (if m \<noteq> [] then Some m else currentStep job)\<rparr>"
| "foldEvent (ErrorEv e) job = job\<lparr>currentStep := Some e, errorMessage := Some e\<rparr>"
| "foldEvent (CompleteEv n d) job = job\<lparr>progress := 100, currentStep := Some ''Completed''\<rparr>"
| "foldEvent (DataEv d i t) job = job"

definition handleStreamEvent :: "string \<Rightarrow> stream_event \<Rightarrow> service \<Rightarrow> service" where
  "handleStreamEvent jid ev s =
     (case jobs s jid of
        None \<Rightarrow> s
      | Some job \<Rightarrow> s\<lparr>jobs := (jobs s)(jid \<mapsto> foldEvent (body ev) job)\<rparr>)"

text \<open>
  \<^verbatim>\<open>runJob\<close> up to its \<^verbatim>\<open>await\<close>. The call of \<^verbatim>\<open>CrawlService.crawl\<close> runs synchronously as
  far as \<^verbatim>\<open>await crawler.run\<close>, so the events raised before that point are folded into
  the record here. A run that gets past the handler lookup draws its \<^verbatim>\<open>requestId\<close> from
  \<^verbatim>\<open>randomUUID\<close>; these are the runs that construct a crawler, so \<open>contexts\<close> counts
  the draws.
\<close>

definition runJobStart :: "world \<Rightarrow> string \<Rightarrow> service \<Rightarrow> service \<times> suspended" where
  "runJobStart w jid s =
     (case jobs s jid of
        None \<Rightarrow> (s, AwaitingReturn)
      | Some job \<Rightarrow>
          (let s1 = s\<lparr>jobs := (jobs s)(jid \<mapsto>
                         job\<lparr>status := Running,
                             startedAt := Some (date w (dateReads s)),
                             currentStep := Some ''Initializing crawler''\<rparr>),
                      dateReads := Suc (dateReads s)\<rparr>;
               r = fst (serviceCrawl (params job) True (uuid w (uuidReads s1))
                          (behaviour w jid));
               s2 = s1\<lparr>uuidReads := uuidReads s1 + contexts r\<rparr>
           in (fold (handleStreamEvent jid) (syncEvents r) s2,
               AwaitingCrawl jid (laterEvents r) (outcome r))))"

text \<open>\<^verbatim>\<open>runJob\<close> after its \<^verbatim>\<open>await\<close>: the two arms of \<^verbatim>\<open>try\<close>/\<^verbatim>\<open>catch\<close>.\<close>

definition runJobSettle ::
  "world \<Rightarrow> string \<Rightarrow> thrown + result_value \<Rightarrow> service \<Rightarrow> service" where
  "runJobSettle w jid out s =
     (case out of
        Inr data \<Rightarrow>
          s\<lparr>results := (results s)(jid \<mapsto> data),
            jobs := (case jobs s jid of
                       None \<Rightarrow> jobs s
                     | Some job \<Rightarrow> (jobs s)(jid \<mapsto>
                         job\<lparr>status := Done, progress := 100,
                             currentStep := Some ''Completed'',
                             finishedAt := Some (date w (dateReads s))\<rparr>)),
            dateReads := Suc (dateReads s)\<rparr>
      | Inl e \<Rightarrow>
          s\<lparr>jobs := (case jobs s jid of
                       None \<Rightarrow> jobs s
                     | Some job \<Rightarrow> (jobs s)(jid \<mapsto>
                         job\<lparr>status := Error,
                             errorMessage := Some (errorMessageOf e),
                             finishedAt := Some (date w (dateReads s)),
                             currentStep := Some ''Failed''\<rparr>)),
            dateReads := Suc (dateReads s)\<rparr>)"

text \<open>
  The \<^verbatim>\<open>while\<close> loop of \<^verbatim>\<open>processQueue\<close>, from its head to the next suspension or to its
  exit. The first argument is the queue it reads. A falsy id (the empty string) is
  skipped without suspending; an empty queue clears \<^verbatim>\<open>isProcessing\<close> and ends the
  invocation.
\<close>

fun processQueueLoop :: "world \<Rightarrow> string list \<Rightarrow> service \<Rightarrow> service \<times> suspended option" where
  "processQueueLoop w [] s = (s\<lparr>queue := [], isProcessing := False\<rparr>, None)"
| "processQueueLoop w (jid # rest) s =
     (if jid = [] then processQueueLoop w rest s
      else (case runJobStart w jid (s\<lparr>queue := rest\<rparr>) of (s', k) \<Rightarrow> (s', Some k)))"

text \<open>\<^verbatim>\<open>processQueue\<close> from its call to its first suspension or its exit.\<close>

definition processQueue :: "world \<Rightarrow> service \<Rightarrow> service" where
  "processQueue w s =
     (if isProcessing s then s
      else (case processQueueLoop w (queue s) (s\<lparr>isProcessing := True\<rparr>) of
              (s', None) \<Rightarrow> s'
            | (s', Some k) \<Rightarrow> s'\<lparr>workers := workers s' @ [k]\<rparr>))"

text \<open>
  \<^verbatim>\<open>createJob\<close> returns \<^verbatim>\<open>{ ...job }\<close>, a copy of the object it stored, taken after
  \<^verbatim>\<open>void this.processQueue()\<close> has come back.
\<close>

definition createJob :: "world \<Rightarrow> request \<Rightarrow> service \<Rightarrow> crawlJobRecord \<times> service" where
  "createJob w req s =
     (let jid = uuid w (uuidReads s);
          job = \<lparr>jobId = jid, status = Queued, progress = 0, currentStep = Some ''Queued'',
                 createdAt = date w (dateReads s), startedAt = None, finishedAt = None,
                 errorMessage = None, params = req\<rparr>;
          s1 = s\<lparr>jobs := (jobs s)(jid \<mapsto> job), queue := queue s @ [jid],
                 uuidReads := Suc (uuidReads s), dateReads := Suc (dateReads s)\<rparr>;
          s2 = processQueue w s1
      in ((case jobs s2 jid of Some j \<Rightarrow> j | None \<Rightarrow> job), s2))"

definition getJob :: "service \<Rightarrow> string \<Rightarrow> crawlJobRecord option" where
  "getJob s jid = jobs s jid"

text \<open>\<^verbatim>\<open>Map.get\<close> answers \<^verbatim>\<open>undefined\<close> for a missing key.\<close>

definition getResult :: "service \<Rightarrow> string \<Rightarrow> result_value" where
  "getResult s jid = (case results s jid of None \<Rightarrow> Undefined | Some v \<Rightarrow> v)"

text \<open>
  The suspended invocation number \<open>i\<close> goes on. While its crawl has events left, the next
  one reaches \<^verbatim>\<open>handleStreamEvent\<close>. Otherwise the crawl settles, \<^verbatim>\<open>runJob\<close> finishes and the
  loop of \<^verbatim>\<open>processQueue\<close> takes its next turn; these are promise reactions, which run
  before any new request is served.
\<close>

definition continueLoop :: "world \<Rightarrow> nat \<Rightarrow> service \<Rightarrow> service" where
  "continueLoop w i s =
     (case processQueueLoop w (queue s) s of
        (s', None) \<Rightarrow> s'\<lparr>workers := take i (workers s') @ drop (Suc i) (workers s')\<rparr>
      | (s', Some k) \<Rightarrow> s'\<lparr>workers := (workers s')[i := k]\<rparr>)"

definition resume :: "world \<Rightarrow> nat \<Rightarrow> service \<Rightarrow> service" where
  "resume w i s =
     (if length (workers s) \<le> i then s
      else (case workers s ! i of
              AwaitingCrawl jid [] out \<Rightarrow> continueLoop w i (runJobSettle w jid out s)
            | AwaitingCrawl jid (ev # evs) out \<Rightarrow>
                (handleStreamEvent jid ev s)\<lparr>workers := (workers s)[i := AwaitingCrawl jid evs out]\<rparr>
            | AwaitingReturn \<Rightarrow> continueLoop w i s))"

text \<open>
  What can happen to the service: a request is submitted, or a suspended invocation goes
  on. \<open>exec\<close> runs a sequence of such steps from the freshly constructed singleton.
\<close>

datatype action = Submit request | Resume nat

fun step :: "world \<Rightarrow> action \<Rightarrow> service \<Rightarrow> service" where
  "step w (Submit req) s = snd (createJob w req s)"
| "step w (Resume i) s = resume w i s"

definition exec :: "world \<Rightarrow> action list \<Rightarrow> service" where
  "exec w acts = fold (step w) acts initial"

section \<open>Vocabulary for the properties\<close>

text \<open>
  An event that a site handler raised and the wrapped callback passed on: the handler's
  body, with the id and the time the callback gave it.
\<close>

definition passedOn :: "string \<Rightarrow> (nat \<Rightarrow> int) \<Rightarrow> attempt list \<Rightarrow> stream_event \<Rightarrow> bool" where
  "passedOn rid ck as x =
     (\<exists>a\<in>set as. \<exists>h\<in>set (raised a). body x = hBody h \<and> requestId x = orRequestId h rid
        \<and> timestamp x \<in> range (\<lambda>k. orTimestamp h (ck k)))"

text \<open>
  What the sink may receive between the first progress event and the last event of a run:
  a progress event of the orchestrator, or an event passed on from a site handler.
\<close>

definition middle :: "string \<Rightarrow> (nat \<Rightarrow> int) \<Rightarrow> attempt list \<Rightarrow> stream_event \<Rightarrow> bool" where
  "middle rid ck as x =
     ((typeOf (body x) = progress_type \<and> requestId x = rid \<and> timestamp x \<in> range ck)
      \<or> passedOn rid ck as x)"

text \<open>The last event of a run that got past the handler lookup, given how the run settles.\<close>

definition terminal :: "mode \<Rightarrow> string \<Rightarrow> thrown + result_value \<Rightarrow> stream_event \<Rightarrow> bool" where
  "terminal m rid out x =
     (requestId x = rid \<and>
      (case out of
         Inl e \<Rightarrow> body x = ErrorEv (errorMessageOf e)
       | Inr v \<Rightarrow> (\<exists>d. body x = CompleteEv (totalItems m v) (Some d))))"


section \<open>Sample inputs\<close>

text \<open>Requests and environments at which the theorems below are instantiated.\<close>

definition tick :: "nat \<Rightarrow> int" where
  "tick k = 1700000000000 + int k"

definition bookingHotel :: request where
  "bookingHotel = \<lparr>category = hotels, site = ''booking'', url = ''https://www.booking.com/hotel/vn/a.html''\<rparr>"

definition googleMapsHotels :: request where
  "googleMapsHotels = \<lparr>category = hotels, site = ''googlemaps'', url = ''https://www.google.com/maps/search/hotels''\<rparr>"


definition constructorSite :: request where
  "constructorSite = \<lparr>category = maps, site = ''constructor'', url = ''https://example.com/''\<rparr>"

definition envItem :: crawler_env where
  "envItem = \<lparr>attempts = [Extraction [\<lparr>hBody = DataEv (Single ''Hotel A'') None None,
       hRequestId = None, hTimestamp = None\<rparr>] (Returns (Single ''Hotel A''))],
     runRejects = None, clock = tick, persistThrows = None\<rparr>"

definition envForged :: crawler_env where
  "envForged = \<lparr>attempts = [Extraction [\<lparr>hBody = DataEv (Single ''Hotel A'') None None,
       hRequestId = Some ''forged'', hTimestamp = None\<rparr>] (Returns (Single ''Hotel A''))],
     runRejects = None, clock = tick, persistThrows = None\<rparr>"

definition envEmptyList :: crawler_env where
  "envEmptyList = \<lparr>attempts = [Extraction [] (Returns (Many []))],
     runRejects = None, clock = tick, persistThrows = None\<rparr>"


definition envThrows :: crawler_env where
  "envThrows = \<lparr>attempts = [Extraction [] (Throws (ErrorObject ''selector not found''))],
     runRejects = Some (ErrorObject ''selector not found''), clock = tick,
     persistThrows = None\<rparr>"

definition envSwallows :: crawler_env where
  "envSwallows = \<lparr>attempts = [Extraction [] (Throws (ErrorObject ''selector not found''))],
     runRejects = None, clock = tick, persistThrows = None\<rparr>"

section \<open>Vocabulary for the job registry\<close>

text \<open>
  How the crawl of a job settles. The \<^verbatim>\<open>requestId\<close> plays no part in it, so the empty
  string stands for it.
\<close>

definition crawlOutcome :: "world \<Rightarrow> string \<Rightarrow> request \<Rightarrow> thrown + result_value" where
  "crawlOutcome w jid req = outcome (crawl req True [] (behaviour w jid))"

text \<open>The events the crawl awaited by the first suspended invocation has yet to deliver.\<close>

definition pending :: "service \<Rightarrow> nat" where
  "pending s = (case workers s of
                  AwaitingCrawl jid evs out # ks \<Rightarrow> length evs
                | _ \<Rightarrow> 0)"

text \<open>
  The worker loop left to itself: with no further submission, the suspended invocation
  goes on until none is left.
\<close>

function drain :: "world \<Rightarrow> service \<Rightarrow> service" where
  "drain w s = (if workers s = [] then s else drain w (resume w 0 s))"
  by pat_completeness auto

text \<open>
  One step of a status, and a step of a record: the status moves along
  queued, running, done or error; the request is kept; a record that is done or in
  error is not touched.
\<close>

definition edge :: "crawlJobStatus \<Rightarrow> crawlJobStatus \<Rightarrow> bool" where
  "edge a b = (a = b \<or> (a = Queued \<and> b = Running) \<or> (a = Running \<and> (b = Done \<or> b = Error)))"

definition terminalStatus :: "crawlJobStatus \<Rightarrow> bool" where
  "terminalStatus a = (a = Done \<or> a = Error)"

definition moves :: "crawlJobRecord \<Rightarrow> crawlJobRecord \<Rightarrow> bool" where
  "moves r r' = (edge (status r) (status r') \<and> params r' = params r
                 \<and> (terminalStatus (status r) \<longrightarrow> r' = r))"

text \<open>
  What holds of a record in every state the service can reach: its id came from
  \<^verbatim>\<open>randomUUID\<close>; a queued job waits in the queue; a running job is the one whose crawl the
  suspended invocation awaits, and that crawl will settle as the job's request
  determines; a finished job has the status, the result and the message of that
  settlement.
\<close>

definition jobInv :: "world \<Rightarrow> service \<Rightarrow> string \<Rightarrow> crawlJobRecord \<Rightarrow> bool" where
  "jobInv w s j r =
     ((\<exists>n<uuidReads s. j = uuid w n) \<and>
      (case status r of
         Queued \<Rightarrow> j \<in> set (queue s) \<and> results s j = None
       | Running \<Rightarrow>
           (\<exists>evs. workers s = [AwaitingCrawl j evs (crawlOutcome w j (params r))])
           \<and> results s j = None
       | Done \<Rightarrow>
           (\<exists>v. crawlOutcome w j (params r) = Inr v \<and> results s j = Some v)
           \<and> finishedAt r \<noteq> None
       | Error \<Rightarrow>
           (\<exists>e. crawlOutcome w j (params r) = Inl e
                \<and> errorMessage r = Some (errorMessageOf e))
           \<and> finishedAt r \<noteq> None \<and> results s j = None))"

text \<open>
  The invariant of the registry: at most one invocation of \<^verbatim>\<open>processQueue\<close> is suspended
  and it awaits a running job; \<^verbatim>\<open>isProcessing\<close> says whether there is one; without one the
  queue is empty; the queue holds distinct, non-empty ids of queued jobs; results are
  stored for known jobs only; and every record is as above.
\<close>

definition registryInv :: "world \<Rightarrow> service \<Rightarrow> bool" where
  "registryInv w s =
     ((workers s = [] \<or>
        (\<exists>j evs out r. workers s = [AwaitingCrawl j evs out] \<and> jobs s j = Some r
            \<and> status r = Running)) \<and>
      (isProcessing s \<longleftrightarrow> workers s \<noteq> []) \<and>
      (workers s = [] \<longrightarrow> queue s = []) \<and>
      distinct (queue s) \<and>
      (\<forall>j\<in>set (queue s). j \<noteq> [] \<and> (\<exists>r. jobs s j = Some r \<and> status r = Queued)) \<and>
      (\<forall>j. jobs s j = None \<longrightarrow> results s j = None) \<and>
      (\<forall>j r. jobs s j = Some r \<longrightarrow> jobInv w s j r))"

section \<open>A sample world\<close>

text \<open>
  Two submissions of the same request. The crawl of the first job fails in the site
  handler; the crawl of the second succeeds and its persistence call fails.
\<close>

definition envPersistFails :: crawler_env where
  "envPersistFails = \<lparr>attempts = [Extraction [] (Returns (Single ''Hotel B''))],
     runRejects = None, clock = tick, persistThrows = Some (ErrorObject ''ECONNREFUSED'')\<rparr>"

definition sampleWorld :: world where
  "sampleWorld = \<lparr>uuid = (\<lambda>n. ''id-'' @ replicate n CHR ''x''), date = tick,
     behaviour = (\<lambda>j. if j = ''id-'' then envThrows else envPersistFails)\<rparr>"

definition twoSubmissions :: "action list" where
  "twoSubmissions = [Submit bookingHotel, Submit bookingHotel]"


definition bothRun :: "action list" where
  "bothRun = twoSubmissions @ replicate 11 (Resume 0)"

definition queuedJob :: crawlJobRecord where
  "queuedJob = \<lparr>jobId = ''id-xx'', status = Queued, progress = 0,
     currentStep = Some ''Queued'', createdAt = tick 2, startedAt = None,
     finishedAt = None, errorMessage = None, params = bookingHotel\<rparr>"



section \<open>Properties of the run orchestrator\<close>

subsection \<open>The variable \<^verbatim>\<open>result\<close> and the settlement of a run\<close>

lemma emitEvent_result: "result (emitEvent on ck rid b st) = result st"
  by (simp add: emitEvent_def)

lemma emitEvent_delivered:
  "delivered (emitEvent True ck rid b st) =
     delivered st @ [\<lparr>body = b, requestId = rid, timestamp = ck (reads st)\<rparr>]"
  by (simp add: emitEvent_def)

lemma emitEvent_off: "emitEvent False ck rid b st = st"
  by (simp add: emitEvent_def)

lemma wrapped_result: "result (wrappedStreamCallback on ck rid ev st) = result st"
  by (simp add: wrappedStreamCallback_def)

lemma wrapped_fold_result:
  "result (fold (wrappedStreamCallback on ck rid) evs st) = result st"
  by (induction evs arbitrary: st) (simp_all add: wrapped_result)

lemma requestHandler_result:
  "result (requestHandler m on ck rid a st) = assigned a (result st)"
proof (cases a)
  case (NavigationFails e)
  then show ?thesis by (simp add: emitEvent_result)
next
  case (Extraction evs out)
  then show ?thesis
    by (cases out) (simp_all add: Let_def emitEvent_result wrapped_fold_result)
qed

lemma attempts_result:
  "result (fold (requestHandler m on ck rid) as st) = fold assigned as (result st)"
  by (induction as arbitrary: st) (simp_all add: requestHandler_result)

lemma outcome_orchestrate:
  "outcome (orchestrate m req on rid env) =
     (if \<not> handlerFound (handlerTable m (category req)) (site req)
      then Inl (ErrorObject (unsupportedMessage m req))
      else (case runRejects env of
              Some e \<Rightarrow> Inl e
            | None \<Rightarrow>
                if truthy (resultAfter env) then Inr (resultAfter env)
                else Inl (ErrorObject (failedMessage m req))))"
  by (simp add: orchestrate_def crawlStart_def crawlAwait_def crawlFail_def Let_def
      attempts_result emitEvent_result resultAfter_def split: option.splits)

lemma contexts_orchestrate:
  "contexts (orchestrate m req on rid env) =
     (if handlerFound (handlerTable m (category req)) (site req) then 1 else 0)"
  by (simp add: orchestrate_def crawlStart_def split: prod.splits)

lemma orchestrate_unsupported:
  "\<not> handlerFound (handlerTable m (category req)) (site req) \<Longrightarrow>
   orchestrate m req on rid env =
     \<lparr>syncEvents = [], laterEvents = [], contexts = 0,
      outcome = Inl (ErrorObject (unsupportedMessage m req))\<rparr>"
  by (simp add: orchestrate_def crawlStart_def)

lemma syncEvents_orchestrate:
  "syncEvents (orchestrate m req True rid env) =
     (if handlerFound (handlerTable m (category req)) (site req)
      then [\<lparr>body = ProgressEv (startingMessage m req) (Some 0), requestId = rid,
              timestamp = clock env 1\<rparr>]
      else [])"
  by (simp add: orchestrate_def crawlStart_def emitEvent_def split: prod.splits)

subsection \<open>What the sink receives\<close>

lemma wrapped_delivered:
  "delivered (wrappedStreamCallback True ck rid ev st) =
     delivered st @ [\<lparr>body = hBody ev, requestId = orRequestId ev rid,
                      timestamp = orTimestamp ev (ck (reads st))\<rparr>]"
  by (simp add: wrappedStreamCallback_def)

lemma wrapped_fold_delivered:
  "\<exists>ys. delivered (fold (wrappedStreamCallback True ck rid) evs st) = delivered st @ ys
      \<and> (\<forall>x\<in>set ys. \<exists>h\<in>set evs. body x = hBody h \<and> requestId x = orRequestId h rid
            \<and> timestamp x \<in> range (\<lambda>k. orTimestamp h (ck k)))"
proof (induction evs arbitrary: st)
  case Nil
  then show ?case by simp
next
  case (Cons ev evs)
  let ?one = "wrappedStreamCallback True ck rid ev st"
  let ?x = "\<lparr>body = hBody ev, requestId = orRequestId ev rid,
             timestamp = orTimestamp ev (ck (reads st))\<rparr>"
  from Cons.IH [of ?one]
  obtain ys where ys:
    "delivered (fold (wrappedStreamCallback True ck rid) evs ?one) = delivered ?one @ ys"
    "\<forall>x\<in>set ys. \<exists>h\<in>set evs. body x = hBody h \<and> requestId x = orRequestId h rid
        \<and> timestamp x \<in> range (\<lambda>k. orTimestamp h (ck k))"
    by blast
  have "delivered (fold (wrappedStreamCallback True ck rid) (ev # evs) st) =
          delivered st @ (?x # ys)"
    using ys(1) by (simp add: wrapped_delivered)
  moreover have "\<forall>x\<in>set (?x # ys). \<exists>h\<in>set (ev # evs). body x = hBody h
      \<and> requestId x = orRequestId h rid \<and> timestamp x \<in> range (\<lambda>k. orTimestamp h (ck k))"
    using ys(2) by auto
  ultimately show ?case by blast
qed

lemma requestHandler_delivered:
  "\<exists>ys. delivered (requestHandler m True ck rid a st) = delivered st @ ys
      \<and> (\<forall>x\<in>set ys. middle rid ck [a] x)"
proof (cases a)
  case (NavigationFails e)
  then show ?thesis
    by (simp add: emitEvent_delivered middle_def)
next
  case (Extraction evs out)
  let ?thr = "emitEvent True ck rid (ProgressEv ''Processing data...'' (Some 50))
      (emitEvent True ck rid (ProgressEv ''Page loaded, extracting data...'' (Some 30))
        (emitEvent True ck rid (ProgressEv ''Loading page...'' (Some 10)) st))"
  obtain ps where ps: "delivered ?thr = delivered st @ ps"
    "\<forall>x\<in>set ps. typeOf (body x) = progress_type \<and> requestId x = rid
        \<and> timestamp x \<in> range ck"
    by (simp add: emitEvent_delivered)
  obtain ys where ys:
    "delivered (fold (wrappedStreamCallback True ck rid) evs ?thr) = delivered ?thr @ ys"
    "\<forall>x\<in>set ys. \<exists>h\<in>set evs. body x = hBody h \<and> requestId x = orRequestId h rid
        \<and> timestamp x \<in> range (\<lambda>k. orTimestamp h (ck k))"
    using wrapped_fold_delivered by blast
  have mid_ys: "\<forall>x\<in>set ys. middle rid ck [a] x"
    using ys(2) Extraction by (simp add: middle_def passedOn_def)
  have mid_ps: "\<forall>x\<in>set ps. middle rid ck [a] x"
    using ps(2) by (simp add: middle_def)
  show ?thesis
  proof (cases out)
    case (Throws e)
    have "delivered (requestHandler m True ck rid a st) = delivered st @ (ps @ ys)"
      using Extraction Throws ps(1) ys(1) by (simp add: Let_def)
    then show ?thesis using mid_ys mid_ps by (metis Un_iff set_append)
  next
    case (Returns v)
    let ?z = "\<lparr>body = ProgressEv (completedMessage m) (Some 100), requestId = rid,
       timestamp = ck (reads (fold (wrappedStreamCallback True ck rid) evs ?thr))\<rparr>"
    have "delivered (requestHandler m True ck rid a st) = delivered st @ (ps @ ys @ [?z])"
      using Extraction Returns ps(1) ys(1) by (simp add: Let_def emitEvent_def)
    moreover have "middle rid ck [a] ?z"
      by (simp add: middle_def)
    then have "\<forall>x\<in>set (ps @ ys @ [?z]). middle rid ck [a] x"
      using mid_ys mid_ps by auto
    ultimately show ?thesis by blast
  qed
qed

lemma passedOn_mono: "passedOn rid ck as x \<Longrightarrow> set as \<subseteq> set bs \<Longrightarrow> passedOn rid ck bs x"
  unfolding passedOn_def by blast

lemma middle_mono: "middle rid ck as x \<Longrightarrow> set as \<subseteq> set bs \<Longrightarrow> middle rid ck bs x"
  unfolding middle_def using passedOn_mono by blast

lemma attempts_delivered:
  "\<exists>ys. delivered (fold (requestHandler m True ck rid) as st) = delivered st @ ys
      \<and> (\<forall>x\<in>set ys. middle rid ck as x)"
proof (induction as arbitrary: st)
  case Nil
  then show ?case by simp
next
  case (Cons a as)
  obtain ys where ys: "delivered (requestHandler m True ck rid a st) = delivered st @ ys"
    "\<forall>x\<in>set ys. middle rid ck [a] x"
    using requestHandler_delivered by blast
  obtain zs where zs:
    "delivered (fold (requestHandler m True ck rid) as (requestHandler m True ck rid a st)) =
       delivered (requestHandler m True ck rid a st) @ zs"
    "\<forall>x\<in>set zs. middle rid ck as x"
    using Cons.IH by blast
  have "delivered (fold (requestHandler m True ck rid) (a # as) st) = delivered st @ (ys @ zs)"
    using ys(1) zs(1) by simp
  moreover have "\<forall>x\<in>set (ys @ zs). middle rid ck (a # as) x"
    using ys(2) zs(2) by (auto intro: middle_mono)
  ultimately show ?case by blast
qed

lemma orchestrate_anatomy:
  assumes found: "handlerFound (handlerTable m (category req)) (site req)"
  shows "\<exists>mid z. syncEvents (orchestrate m req True rid env) =
            [\<lparr>body = ProgressEv (startingMessage m req) (Some 0), requestId = rid,
              timestamp = clock env 1\<rparr>]
          \<and> laterEvents (orchestrate m req True rid env) = mid @ [z]
          \<and> (\<forall>x\<in>set mid. middle rid (clock env) (attempts env) x)
          \<and> terminal m rid (outcome (orchestrate m req True rid env)) z
          \<and> timestamp z \<in> range (clock env)"
proof -
  let ?ini = "emitEvent True (clock env) rid (ProgressEv (startingMessage m req) (Some 0))
      \<lparr>delivered = [], reads = 1, result = Undefined\<rparr>"
  let ?st = "fold (requestHandler m True (clock env) rid) (attempts env) (?ini\<lparr>delivered := []\<rparr>)"
  have mid: "\<forall>x\<in>set (delivered ?st). middle rid (clock env) (attempts env) x"
    using attempts_delivered [of m "clock env" rid "attempts env" "?ini\<lparr>delivered := []\<rparr>"]
    by auto
  have sync: "syncEvents (orchestrate m req True rid env) =
      [\<lparr>body = ProgressEv (startingMessage m req) (Some 0), requestId = rid,
        timestamp = clock env 1\<rparr>]"
    using found
    by (simp add: orchestrate_def crawlStart_def emitEvent_def split: prod.splits)
  have "\<exists>z. laterEvents (orchestrate m req True rid env) = delivered ?st @ [z]
      \<and> terminal m rid (outcome (orchestrate m req True rid env)) z
      \<and> timestamp z \<in> range (clock env)"
    using found
    by (auto simp: orchestrate_def crawlStart_def crawlAwait_def crawlFail_def Let_def
        emitEvent_def terminal_def split: option.splits)
  then show ?thesis using sync mid by blast
qed

lemma orchestrate_no_sink_attempts:
  "delivered (fold (requestHandler m False ck rid) as st) = delivered st"
proof (induction as arbitrary: st)
  case Nil
  then show ?case by simp
next
  case (Cons a as)
  have w: "\<And>evs s. fold (wrappedStreamCallback False ck rid) evs s = s"
    subgoal for evs s by (induction evs) (simp_all add: wrappedStreamCallback_def)
    done
  have "delivered (requestHandler m False ck rid a st) = delivered st"
    by (cases a) (simp_all add: emitEvent_off Let_def w split: extract_outcome.splits)
  then show ?case using Cons.IH by simp
qed

lemma events_no_sink: "events (orchestrate m req False rid env) = []"
  by (simp add: events_def orchestrate_def crawlStart_def crawlAwait_def crawlFail_def
      emitEvent_off Let_def orchestrate_no_sink_attempts split: option.splits)

lemma events_anatomy:
  assumes found: "handlerFound (handlerTable m (category req)) (site req)"
  shows "\<exists>mid z. events (orchestrate m req True rid env) =
            \<lparr>body = ProgressEv (startingMessage m req) (Some 0), requestId = rid,
              timestamp = clock env 1\<rparr> # mid @ [z]
          \<and> (\<forall>x\<in>set mid. middle rid (clock env) (attempts env) x)
          \<and> terminal m rid (outcome (orchestrate m req True rid env)) z
          \<and> timestamp z \<in> range (clock env)"
  using orchestrate_anatomy [OF found, of rid env] unfolding events_def by auto

subsection \<open>The handler lookup\<close>

text \<open>
  Claim C5 says that a request whose (category, site) pair has no registered handler
  fails at once with the unsupported-site error, before a crawler is constructed and
  before any event. For a site that is absent from the table and from
  \<^verbatim>\<open>Object.prototype\<close> this is \<open>orchestrate_unsupported\<close> above. The property read
  \<^verbatim>\<open>this.siteHandlers[request.site]\<close> also finds inherited properties, though: for the
  site \<^verbatim>\<open>constructor\<close>, which no table registers, the guard \<^verbatim>\<open>if (!handler)\<close> does not
  fire, the first progress event is emitted and a crawler is constructed.
\<close>

theorem prototype_key_passes_lookup:
  "site constructorSite \<notin> set (siteHandlers (category constructorSite))
   \<and> contexts (crawl constructorSite True ''run-1'' envItem) = 1
   \<and> map body (syncEvents (crawl constructorSite True ''run-1'' envItem)) =
       [ProgressEv ''Starting crawl for constructor...'' (Some 0)]"
  by code_simp

subsection \<open>Failure of a run\<close>

text \<open>
  Claim C6, amended. For every run that the handler lookup lets through: when
  \<^verbatim>\<open>crawler.run\<close> rejects, or returns with \<^verbatim>\<open>result\<close> still \<^verbatim>\<open>undefined\<close>/\<^verbatim>\<open>null\<close> (the
  site handler threw or returned nothing), the promise rejects with the error \<open>e\<close>
  (the rejection of \<^verbatim>\<open>crawler.run\<close>, else the "Failed to crawl" error), the last event
  the sink receives is an error event with the message of \<open>e\<close> and the run's
  \<^verbatim>\<open>requestId\<close>, and everything before it is a progress event or an event a site
  handler raised: the orchestrator emits no complete event.
\<close>

theorem failure_emits_error_and_rejects:
  assumes found: "handlerFound (handlerTable m (category req)) (site req)"
    and failed: "runRejects env \<noteq> None \<or> \<not> truthy (resultAfter env)"
  shows "\<exists>e front t. outcome (orchestrate m req True rid env) = Inl e
          \<and> e = (case runRejects env of Some e' \<Rightarrow> e'
                   | None \<Rightarrow> ErrorObject (failedMessage m req))
          \<and> events (orchestrate m req True rid env) =
              front @ [\<lparr>body = ErrorEv (errorMessageOf e), requestId = rid, timestamp = t\<rparr>]
          \<and> (\<forall>x\<in>set front. typeOf (body x) = progress_type \<or>
                (\<exists>a\<in>set (attempts env). \<exists>h\<in>set (raised a). body x = hBody h))"
proof -
  let ?r = "orchestrate m req True rid env"
  let ?e = "case runRejects env of Some e' \<Rightarrow> e' | None \<Rightarrow> ErrorObject (failedMessage m req)"
  have out: "outcome ?r = Inl ?e"
    using found failed by (auto simp: outcome_orchestrate split: option.splits)
  obtain mid z where ev: "events ?r =
        \<lparr>body = ProgressEv (startingMessage m req) (Some 0), requestId = rid,
          timestamp = clock env 1\<rparr> # mid @ [z]"
    and mid: "\<forall>x\<in>set mid. middle rid (clock env) (attempts env) x"
    and z: "terminal m rid (outcome ?r) z"
    using events_anatomy [OF found] by blast
  have zeq: "z = \<lparr>body = ErrorEv (errorMessageOf ?e), requestId = rid, timestamp = timestamp z\<rparr>"
    using z out by (simp add: terminal_def)
  let ?front = "\<lparr>body = ProgressEv (startingMessage m req) (Some 0), requestId = rid,
          timestamp = clock env 1\<rparr> # mid"
  have "events ?r = ?front @ [\<lparr>body = ErrorEv (errorMessageOf ?e), requestId = rid,
      timestamp = timestamp z\<rparr>]"
    using ev zeq by simp
  moreover have "\<forall>x\<in>set ?front. typeOf (body x) = progress_type \<or>
      (\<exists>a\<in>set (attempts env). \<exists>h\<in>set (raised a). body x = hBody h)"
    using mid unfolding middle_def passedOn_def by auto
  ultimately show ?thesis using out by blast
qed

theorem failure_emits_error_and_rejects_witness:
  "handlerFound (handlerTable SingleMode (category bookingHotel)) (site bookingHotel)
   \<and> runRejects envThrows = Some (ErrorObject ''selector not found'')
   \<and> outcome (orchestrate SingleMode bookingHotel True ''run-1'' envThrows) =
       Inl (ErrorObject ''selector not found'')
   \<and> body (last (events (orchestrate SingleMode bookingHotel True ''run-1'' envThrows))) =
       ErrorEv ''selector not found''
   \<and> runRejects envSwallows = None \<and> resultAfter envSwallows = Undefined
   \<and> outcome (orchestrate SingleMode bookingHotel True ''run-1'' envSwallows) =
       Inl (ErrorObject (''Failed to crawl data for site '' @ quote ''booking''))
   \<and> body (last (events (orchestrate SingleMode bookingHotel True ''run-1'' envSwallows))) =
       ErrorEv (''Failed to crawl data for site '' @ quote ''booking'')"
proof -
  have f: "handlerFound (handlerTable SingleMode (category bookingHotel)) (site bookingHotel)"
    by code_simp
  have r: "runRejects envThrows = Some (ErrorObject ''selector not found'')"
    by code_simp
  then have h: "runRejects envThrows \<noteq> None \<or> \<not> truthy (resultAfter envThrows)"
    by simp
  have s: "runRejects envSwallows = None" "resultAfter envSwallows = Undefined"
    "failedMessage SingleMode bookingHotel = ''Failed to crawl data for site '' @ quote ''booking''"
    by code_simp+
  then have k: "runRejects envSwallows \<noteq> None \<or> \<not> truthy (resultAfter envSwallows)"
    by simp
  from failure_emits_error_and_rejects [OF f h, of "''run-1''"] r
  have one: "outcome (orchestrate SingleMode bookingHotel True ''run-1'' envThrows) =
       Inl (ErrorObject ''selector not found'')
   \<and> body (last (events (orchestrate SingleMode bookingHotel True ''run-1'' envThrows))) =
       ErrorEv ''selector not found''"
    by (auto simp: errorMessageOf_def)
  from failure_emits_error_and_rejects [OF f k, of "''run-1''"] s
  have two: "outcome (orchestrate SingleMode bookingHotel True ''run-1'' envSwallows) =
       Inl (ErrorObject (''Failed to crawl data for site '' @ quote ''booking''))
   \<and> body (last (events (orchestrate SingleMode bookingHotel True ''run-1'' envSwallows))) =
       ErrorEv (''Failed to crawl data for site '' @ quote ''booking'')"
    by (auto simp: errorMessageOf_def)
  show ?thesis using f r s(1,2) one two by simp
qed

text \<open>
  As claim C6 is written it fails for a list handler that returns the empty array:
  \<^verbatim>\<open>![]\<close> is false, so \<^verbatim>\<open>crawlList\<close> emits a complete event with \<^verbatim>\<open>totalItems\<close> 0 and
  resolves with the empty array.
\<close>

theorem empty_list_is_success_counterexample:
  "outcome (crawlList googleMapsHotels True ''run-1'' envEmptyList) = Inr (Many [])
   \<and> map body (events (crawlList googleMapsHotels True ''run-1'' envEmptyList)) =
     [ProgressEv ''Starting list crawl for googlemaps...'' (Some 0),
      ProgressEv ''Loading page...'' (Some 10),
      ProgressEv ''Page loaded, extracting data...'' (Some 30),
      ProgressEv ''Processing data...'' (Some 50),
      ProgressEv ''Crawl list completed'' (Some 100),
      CompleteEv (Some 0) (Some 6)]"
  by code_simp

subsection \<open>Correlation id and timestamp\<close>

text \<open>
  Claim C7, amended. Every event the sink receives carries a \<^verbatim>\<open>requestId\<close> and a
  \<^verbatim>\<open>timestamp\<close>. The \<^verbatim>\<open>requestId\<close> is the run's, unless the event was raised by a site
  handler with a non-empty \<^verbatim>\<open>requestId\<close> of its own, which the wrapped callback keeps.
  The \<^verbatim>\<open>timestamp\<close> is a reading of the clock, unless the event was raised by a site
  handler with a non-zero \<^verbatim>\<open>timestamp\<close> of its own, which is kept as well.
\<close>

theorem requestId_from_run_or_handler:
  "\<forall>x\<in>set (events (orchestrate m req onStream rid env)).
     (requestId x = rid \<or>
      (\<exists>a\<in>set (attempts env). \<exists>h\<in>set (raised a).
          body x = hBody h \<and> hRequestId h = Some (requestId x) \<and> requestId x \<noteq> []))
     \<and> (timestamp x \<in> range (clock env) \<or>
      (\<exists>a\<in>set (attempts env). \<exists>h\<in>set (raised a).
          body x = hBody h \<and> hTimestamp h = Some (timestamp x) \<and> timestamp x \<noteq> 0))"
proof (cases "onStream \<and> handlerFound (handlerTable m (category req)) (site req)")
  case False
  have "events (orchestrate m req onStream rid env) = []"
  proof (cases onStream)
    case True
    with False show ?thesis by (simp add: orchestrate_unsupported events_def)
  next
    case False
    then show ?thesis using events_no_sink by simp
  qed
  then show ?thesis by simp
next
  case True
  then obtain mid z where ev: "events (orchestrate m req onStream rid env) =
        \<lparr>body = ProgressEv (startingMessage m req) (Some 0), requestId = rid,
          timestamp = clock env 1\<rparr> # mid @ [z]"
    and mid: "\<forall>x\<in>set mid. middle rid (clock env) (attempts env) x"
    and z: "terminal m rid (outcome (orchestrate m req onStream rid env)) z"
      "timestamp z \<in> range (clock env)"
    using events_anatomy [of m req rid env] by auto
  have id_cases: "\<And>h. orRequestId h rid = rid \<or>
      (hRequestId h = Some (orRequestId h rid) \<and> orRequestId h rid \<noteq> [])"
    by (simp add: orRequestId_def split: option.splits)
  have ts_cases: "\<And>h k. orTimestamp h (clock env k) = clock env k \<or>
      (hTimestamp h = Some (orTimestamp h (clock env k)) \<and> orTimestamp h (clock env k) \<noteq> 0)"
    by (simp add: orTimestamp_def split: option.splits)
  have mid_ok: "(requestId x = rid \<or>
      (\<exists>a\<in>set (attempts env). \<exists>h\<in>set (raised a).
          body x = hBody h \<and> hRequestId h = Some (requestId x) \<and> requestId x \<noteq> []))
     \<and> (timestamp x \<in> range (clock env) \<or>
      (\<exists>a\<in>set (attempts env). \<exists>h\<in>set (raised a).
          body x = hBody h \<and> hTimestamp h = Some (timestamp x) \<and> timestamp x \<noteq> 0))"
    if "middle rid (clock env) (attempts env) x" for x
  proof (cases "passedOn rid (clock env) (attempts env) x")
    case False
    then show ?thesis using that by (simp add: middle_def)
  next
    case True
    then obtain a h k where ah: "a \<in> set (attempts env)" "h \<in> set (raised a)"
      "body x = hBody h" "requestId x = orRequestId h rid"
      "timestamp x = orTimestamp h (clock env k)"
      unfolding passedOn_def by blast
    show ?thesis using ah id_cases [of h] ts_cases [of h k] by (metis rangeI)
  qed
  show ?thesis
    unfolding ev using mid_ok mid z by (auto simp: terminal_def)
qed

theorem requestId_from_run_or_handler_witness:
  "map requestId (events (orchestrate SingleMode bookingHotel True ''run-1'' envItem)) =
     [''run-1'', ''run-1'', ''run-1'', ''run-1'', ''run-1'', ''run-1'', ''run-1'']
   \<and> map timestamp (events (orchestrate SingleMode bookingHotel True ''run-1'' envItem)) =
     [tick 1, tick 2, tick 3, tick 4, tick 5, tick 6, tick 8]"
proof -
  have c: "map requestId (events (orchestrate SingleMode bookingHotel True ''run-1'' envItem)) =
     [''run-1'', ''run-1'', ''run-1'', ''run-1'', ''run-1'', ''run-1'', ''run-1'']
   \<and> map timestamp (events (orchestrate SingleMode bookingHotel True ''run-1'' envItem)) =
     [tick 1, tick 2, tick 3, tick 4, tick 5, tick 6, tick 8]"
    by code_simp
  show ?thesis
    using requestId_from_run_or_handler [of SingleMode bookingHotel True "''run-1''" envItem] c
    by simp
qed

text \<open>
  As claim C7 is written it fails: a site handler that puts a \<^verbatim>\<open>requestId\<close> on its
  event substitutes it for the run's.
\<close>

theorem requestId_forged_counterexample:
  "map requestId (events (crawl bookingHotel True ''run-1'' envForged)) =
     [''run-1'', ''run-1'', ''run-1'', ''run-1'', ''forged'', ''run-1'', ''run-1'']"
  by code_simp

subsection \<open>Order of events\<close>




section \<open>Properties of the job registry\<close>

subsection \<open>The services a job calls\<close>

lemma persist_resolves: "fst (persist req data env) = Inr ()"
  by (simp add: persist_def split: sum.splits)

lemma serviceCrawl_run: "fst (serviceCrawl req on rid env) = crawl req on rid env"
proof -
  obtain u lg where "persist req (projr (outcome (crawl req on rid env))) env = (Inr u, lg)"
    using persist_resolves [of req "projr (outcome (crawl req on rid env))" env]
    by (metis fst_conv surj_pair)
  then show ?thesis
    by (auto simp: serviceCrawl_def Let_def split: sum.splits prod.splits)
qed

lemma outcome_crawl_any: "outcome (crawl req on rid env) = outcome (crawl req on' rid' env)"
  by (simp add: crawl_def outcome_orchestrate)

lemma outcome_truthy: "outcome (orchestrate m req on rid env) = Inr v \<Longrightarrow> truthy v"
  by (auto simp: outcome_orchestrate split: if_splits option.splits)

lemma crawlOutcome_truthy: "crawlOutcome w j req = Inr v \<Longrightarrow> v \<noteq> Undefined"
  using outcome_truthy [of SingleMode req True "[]" "behaviour w j" v]
  by (auto simp: crawlOutcome_def crawl_def)

subsection \<open>Effects of the pieces of \<^verbatim>\<open>runJob\<close> and \<^verbatim>\<open>processQueue\<close>\<close>

lemma foldEvent_core:
  "status (foldEvent b r) = status r \<and> params (foldEvent b r) = params r
   \<and> finishedAt (foldEvent b r) = finishedAt r \<and> jobId (foldEvent b r) = jobId r"
  by (cases b) simp_all

lemma handleStreamEvent_fold:
  "jobs s jid = Some r \<Longrightarrow>
   \<exists>r'. fold (handleStreamEvent jid) evs s = s\<lparr>jobs := (jobs s)(jid \<mapsto> r')\<rparr>
        \<and> status r' = status r \<and> params r' = params r \<and> finishedAt r' = finishedAt r"
proof (induction evs arbitrary: s r)
  case Nil
  have "s = s\<lparr>jobs := (jobs s)(jid \<mapsto> r)\<rparr>"
    using Nil by (simp add: fun_upd_idem)
  then show ?case by (metis fold_simps(1))
next
  case (Cons ev evs)
  let ?r1 = "foldEvent (body ev) r"
  let ?s1 = "s\<lparr>jobs := (jobs s)(jid \<mapsto> ?r1)\<rparr>"
  have s1: "handleStreamEvent jid ev s = ?s1"
    using Cons.prems by (simp add: handleStreamEvent_def)
  have "jobs ?s1 jid = Some ?r1" by simp
  from Cons.IH [OF this] obtain r' where r':
    "fold (handleStreamEvent jid) evs ?s1 = ?s1\<lparr>jobs := (jobs ?s1)(jid \<mapsto> r')\<rparr>"
    "status r' = status ?r1" "params r' = params ?r1" "finishedAt r' = finishedAt ?r1"
    by blast
  have "fold (handleStreamEvent jid) (ev # evs) s = s\<lparr>jobs := (jobs s)(jid \<mapsto> r')\<rparr>"
    using s1 r'(1) by simp
  moreover have "status r' = status r" "params r' = params r" "finishedAt r' = finishedAt r"
    using r'(2-4) foldEvent_core [of "body ev" r] by simp_all
  ultimately show ?case by blast
qed

lemma runJobStart_missing:
  "jobs s jid = None \<Longrightarrow> runJobStart w jid s = (s, AwaitingReturn)"
  by (simp add: runJobStart_def)

lemma runJobStart_found:
  assumes "jobs s jid = Some r"
  shows "\<exists>r' evs c. runJobStart w jid s =
           (s\<lparr>jobs := (jobs s)(jid \<mapsto> r'), dateReads := Suc (dateReads s),
              uuidReads := uuidReads s + c\<rparr>,
            AwaitingCrawl jid evs (crawlOutcome w jid (params r)))
         \<and> status r' = Running \<and> params r' = params r \<and> finishedAt r' = finishedAt r"
proof -
  let ?r1 = "r\<lparr>status := Running, startedAt := Some (date w (dateReads s)),
               currentStep := Some ''Initializing crawler''\<rparr>"
  let ?run = "crawl (params r) True (uuid w (uuidReads s)) (behaviour w jid)"
  let ?s2 = "s\<lparr>jobs := (jobs s)(jid \<mapsto> ?r1), dateReads := Suc (dateReads s),
               uuidReads := uuidReads s + contexts ?run\<rparr>"
  have "jobs ?s2 jid = Some ?r1" by simp
  from handleStreamEvent_fold [OF this, of "syncEvents ?run"] obtain r' where r':
    "fold (handleStreamEvent jid) (syncEvents ?run) ?s2 = ?s2\<lparr>jobs := (jobs ?s2)(jid \<mapsto> r')\<rparr>"
    "status r' = status ?r1" "params r' = params ?r1" "finishedAt r' = finishedAt ?r1"
    by blast
  have out: "outcome ?run = crawlOutcome w jid (params r)"
    unfolding crawlOutcome_def by (rule outcome_crawl_any)
  have "runJobStart w jid s =
      (s\<lparr>jobs := (jobs s)(jid \<mapsto> r'), dateReads := Suc (dateReads s),
         uuidReads := uuidReads s + contexts ?run\<rparr>,
       AwaitingCrawl jid (laterEvents ?run) (crawlOutcome w jid (params r)))"
    using assms r'(1) out by (simp add: runJobStart_def Let_def serviceCrawl_run)
  then show ?thesis using r'(2-4) by auto
qed

lemma runJobStart_jobs:
  assumes "jobs t jid = Some r" "runJobStart w jid t = (t', k)"
  shows "\<exists>r'. jobs t' = (jobs t)(jid \<mapsto> r') \<and> status r' = Running \<and> params r' = params r"
  using runJobStart_found [OF assms(1), of w] assms(2) by auto

lemma runJobStart_frame:
  "runJobStart w jid s = (s', k) \<Longrightarrow>
   queue s' = queue s \<and> workers s' = workers s \<and> isProcessing s' = isProcessing s
   \<and> results s' = results s"
proof (cases "jobs s jid")
  case None
  assume "runJobStart w jid s = (s', k)"
  with None show ?thesis by (simp add: runJobStart_missing)
next
  case (Some r)
  assume "runJobStart w jid s = (s', k)"
  with runJobStart_found [OF Some, of w] show ?thesis by auto
qed

lemma processQueueLoop_frame:
  "processQueueLoop w q s = (s', r) \<Longrightarrow>
   workers s' = workers s \<and> results s' = results s
   \<and> (case r of None \<Rightarrow> queue s' = [] \<and> \<not> isProcessing s'
       | Some k \<Rightarrow> length (queue s') < length q \<and> isProcessing s' = isProcessing s)"
proof (induction q arbitrary: s)
  case Nil
  then show ?case by auto
next
  case (Cons jid rest)
  show ?case
  proof (cases "jid = []")
    case True
    with Cons.prems have "processQueueLoop w rest s = (s', r)" by simp
    from Cons.IH [OF this] show ?thesis by (auto split: option.splits)
  next
    case False
    with Cons.prems obtain k where k: "runJobStart w jid (s\<lparr>queue := rest\<rparr>) = (s', k)"
      "r = Some k"
      by (auto split: prod.splits)
    from runJobStart_frame [OF k(1)] k(2) show ?thesis by simp
  qed
qed

lemma runJobSettle_frame:
  "queue (runJobSettle w jid out s) = queue s \<and> workers (runJobSettle w jid out s) = workers s
   \<and> isProcessing (runJobSettle w jid out s) = isProcessing s"
  by (simp add: runJobSettle_def split: sum.splits)

subsection \<open>The worker loop comes to rest\<close>

lemma continueLoop_measure:
  assumes "i < length (workers s)"
  shows "length (queue (continueLoop w i s)) < length (queue s)
     \<or> length (queue (continueLoop w i s)) = length (queue s)
        \<and> length (workers (continueLoop w i s)) < length (workers s)"
proof -
  obtain s' r where l: "processQueueLoop w (queue s) s = (s', r)"
    by (cases "processQueueLoop w (queue s) s")
  from processQueueLoop_frame [OF l] have f: "workers s' = workers s"
    "case r of None \<Rightarrow> queue s' = [] | Some k \<Rightarrow> length (queue s') < length (queue s)"
    by (auto split: option.splits)
  show ?thesis
  proof (cases r)
    case None
    then have "continueLoop w i s = s'\<lparr>workers := take i (workers s') @ drop (Suc i) (workers s')\<rparr>"
      using l by (simp add: continueLoop_def)
    then show ?thesis using f None assms by auto
  next
    case (Some k)
    then have "continueLoop w i s = s'\<lparr>workers := (workers s')[i := k]\<rparr>"
      using l by (simp add: continueLoop_def)
    then show ?thesis using f Some by auto
  qed
qed

lemma resume_measure:
  assumes "workers s \<noteq> []"
  shows "length (queue (resume w 0 s)) < length (queue s)
     \<or> length (queue (resume w 0 s)) = length (queue s)
        \<and> (length (workers (resume w 0 s)) < length (workers s)
            \<or> length (workers (resume w 0 s)) = length (workers s)
               \<and> pending (resume w 0 s) < pending s)"
proof -
  from assms obtain k ks where ws: "workers s = k # ks" by (cases "workers s") auto
  show ?thesis
  proof (cases k)
    case AwaitingReturn
    then have "resume w 0 s = continueLoop w 0 s" using ws by (simp add: resume_def)
    then show ?thesis using continueLoop_measure [of 0 s w] ws by auto
  next
    case (AwaitingCrawl jid evs out)
    show ?thesis
    proof (cases evs)
      case Nil
      then have "resume w 0 s = continueLoop w 0 (runJobSettle w jid out s)"
        using ws AwaitingCrawl by (simp add: resume_def)
      then show ?thesis
        using continueLoop_measure [of 0 "runJobSettle w jid out s" w] ws
          runJobSettle_frame [of w jid out s] by auto
    next
      case (Cons ev evs')
      then have "resume w 0 s =
          (handleStreamEvent jid ev s)\<lparr>workers := (workers s)[0 := AwaitingCrawl jid evs' out]\<rparr>"
        using ws AwaitingCrawl by (simp add: resume_def)
      moreover have "queue (handleStreamEvent jid ev s) = queue s"
        by (simp add: handleStreamEvent_def split: option.splits)
      ultimately show ?thesis using ws AwaitingCrawl Cons by (simp add: pending_def)
    qed
  qed
qed

termination drain
proof (relation "measures [\<lambda>(w, s). length (queue s), \<lambda>(w, s). length (workers s),
    \<lambda>(w, s). pending s]")
  show "wf (measures [\<lambda>(w, s). length (queue s), \<lambda>(w, s). length (workers s),
    \<lambda>(w, s). pending s])"
    by simp
next
  fix w :: world and s :: service
  assume "workers s \<noteq> []"
  from resume_measure [OF this, of w]
  show "((w, resume w 0 s), (w, s)) \<in> measures [\<lambda>(w, s). length (queue s),
      \<lambda>(w, s). length (workers s), \<lambda>(w, s). pending s]"
    by auto
qed

subsection \<open>The invariant holds in every reachable state\<close>

lemma inv_initial: "registryInv w initial"
  by (simp add: registryInv_def initial_def)

lemma invD:
  assumes "registryInv w s"
  shows inv_workers: "workers s = [] \<or>
        (\<exists>j evs out r. workers s = [AwaitingCrawl j evs out] \<and> jobs s j = Some r
            \<and> status r = Running)"
    and inv_flag: "isProcessing s \<longleftrightarrow> workers s \<noteq> []"
    and inv_idle: "workers s = [] \<Longrightarrow> queue s = []"
    and inv_distinct: "distinct (queue s)"
    and inv_queue: "\<And>j. j \<in> set (queue s) \<Longrightarrow> j \<noteq> [] \<and> (\<exists>r. jobs s j = Some r \<and> status r = Queued)"
    and inv_results: "\<And>j. jobs s j = None \<Longrightarrow> results s j = None"
    and inv_job: "\<And>j r. jobs s j = Some r \<Longrightarrow> jobInv w s j r"
  using assms unfolding registryInv_def by blast+

lemma invI:
  assumes "workers s = [] \<or>
        (\<exists>j evs out r. workers s = [AwaitingCrawl j evs out] \<and> jobs s j = Some r
            \<and> status r = Running)"
    and "isProcessing s \<longleftrightarrow> workers s \<noteq> []"
    and "workers s = [] \<Longrightarrow> queue s = []"
    and "distinct (queue s)"
    and "\<And>j. j \<in> set (queue s) \<Longrightarrow> j \<noteq> [] \<and> (\<exists>r. jobs s j = Some r \<and> status r = Queued)"
    and "\<And>j. jobs s j = None \<Longrightarrow> results s j = None"
    and "\<And>j r. jobs s j = Some r \<Longrightarrow> jobInv w s j r"
  shows "registryInv w s"
  using assms unfolding registryInv_def by blast

lemma fresh_id:
  assumes "registryInv w s" "inj (uuid w)"
  shows "jobs s (uuid w (uuidReads s)) = None"
proof (cases "jobs s (uuid w (uuidReads s))")
  case None
  then show ?thesis .
next
  case (Some r)
  with assms(1) have "jobInv w s (uuid w (uuidReads s)) r" by (simp add: registryInv_def)
  then obtain n where "n < uuidReads s" "uuid w (uuidReads s) = uuid w n"
    by (auto simp: jobInv_def)
  with assms(2) show ?thesis by (auto dest: injD)
qed

lemma jobInv_frame:
  assumes "jobInv w s j r" "uuidReads s \<le> uuidReads s'" "results s' j = results s j"
    and "status r = Queued \<Longrightarrow> j \<in> set (queue s) \<Longrightarrow> j \<in> set (queue s')"
    and "status r = Running \<Longrightarrow> workers s' = workers s"
  shows "jobInv w s' j r"
proof -
  from assms(1) obtain n where "n < uuidReads s" "j = uuid w n"
    unfolding jobInv_def by blast
  with assms(2) have "\<exists>n<uuidReads s'. j = uuid w n" by (intro exI [of _ n]) simp
  then show ?thesis
    using assms unfolding jobInv_def by (cases "status r") auto
qed

lemma not_running_when_idle:
  assumes "jobInv w s j r" "workers s = []"
  shows "status r \<noteq> Running"
  using assms by (auto simp: jobInv_def)

lemma enqueue_keeps_inv:
  assumes i: "registryInv w s" and u: "inj (uuid w)" and ne: "\<forall>n. uuid w n \<noteq> []"
    and busy: "isProcessing s"
  shows "registryInv w (s\<lparr>jobs := (jobs s)(uuid w (uuidReads s) \<mapsto>
              \<lparr>jobId = uuid w (uuidReads s), status = Queued, progress = 0,
               currentStep = Some ''Queued'', createdAt = t, startedAt = None,
               finishedAt = None, errorMessage = None, params = req\<rparr>),
            queue := queue s @ [uuid w (uuidReads s)],
            uuidReads := Suc (uuidReads s), dateReads := Suc (dateReads s)\<rparr>)"
    (is "registryInv w ?s'")
proof (rule invI)
  let ?jid = "uuid w (uuidReads s)"
  have fr: "jobs s ?jid = None" using fresh_id [OF i u] .
  have nq: "?jid \<notin> set (queue s)"
    using inv_queue [OF i, of ?jid] fr by auto
  have nr: "results s ?jid = None"
    using inv_results [OF i fr] .
  show "workers ?s' = [] \<or>
        (\<exists>j evs out r. workers ?s' = [AwaitingCrawl j evs out] \<and> jobs ?s' j = Some r
            \<and> status r = Running)"
  proof (cases "workers s = []")
    case True
    then show ?thesis by simp
  next
    case False
    with inv_workers [OF i] obtain j evs out r where
      k: "workers s = [AwaitingCrawl j evs out]" "jobs s j = Some r" "status r = Running"
      by blast
    then have "j \<noteq> ?jid" using fr by auto
    then have "workers ?s' = [AwaitingCrawl j evs out] \<and> jobs ?s' j = Some r
        \<and> status r = Running"
      using k by simp
    then show ?thesis by blast
  qed
  show "isProcessing ?s' \<longleftrightarrow> workers ?s' \<noteq> []"
    using inv_flag [OF i] by simp
  show "workers ?s' = [] \<Longrightarrow> queue ?s' = []"
    using inv_flag [OF i] busy by simp
  show "distinct (queue ?s')"
    using inv_distinct [OF i] nq by simp
  show "j \<noteq> [] \<and> (\<exists>r. jobs ?s' j = Some r \<and> status r = Queued)"
    if "j \<in> set (queue ?s')" for j
    using that inv_queue [OF i, of j] ne by auto
  show "results ?s' j = None" if "jobs ?s' j = None" for j
    using that inv_results [OF i, of j] by (simp split: if_splits)
  show "jobInv w ?s' j r" if jr: "jobs ?s' j = Some r" for j r
  proof (cases "j = ?jid")
    case True
    with jr nr show ?thesis by (auto simp: jobInv_def)
  next
    case False
    with jr have "jobs s j = Some r" by simp
    show ?thesis by (rule jobInv_frame [OF inv_job [OF i \<open>jobs s j = Some r\<close>]]) auto
  qed
qed

lemma start_keeps_inv:
  assumes q1: "distinct (queue t)" and q2: "jid \<notin> set (queue t)"
    and q3: "\<And>j. j \<in> set (queue t) \<Longrightarrow> j \<noteq> [] \<and> (\<exists>r. jobs t j = Some r \<and> status r = Queued)"
    and rs: "\<And>j. jobs t j = None \<Longrightarrow> results t j = None"
    and others: "\<And>j r. jobs t j = Some r \<Longrightarrow> j \<noteq> jid \<Longrightarrow> status r \<noteq> Running \<and> jobInv w t j r"
    and mine: "jobs t jid = Some r" "results t jid = None" "\<exists>n<uuidReads t. jid = uuid w n"
    and flag: "isProcessing t"
    and start: "runJobStart w jid t = (t', k)"
  shows "registryInv w (t'\<lparr>workers := [k]\<rparr>)"
proof -
  from runJobStart_found [OF mine(1), of w] start obtain r' evs c where
    t': "t' = t\<lparr>jobs := (jobs t)(jid \<mapsto> r'), dateReads := Suc (dateReads t),
              uuidReads := uuidReads t + c\<rparr>"
    and k: "k = AwaitingCrawl jid evs (crawlOutcome w jid (params r))"
    and r': "status r' = Running" "params r' = params r"
    by auto
  let ?u = "t'\<lparr>workers := [k]\<rparr>"
  have fields: "workers ?u = [k]" "queue ?u = queue t" "results ?u = results t"
    "isProcessing ?u = isProcessing t" "jobs ?u = (jobs t)(jid \<mapsto> r')"
    "uuidReads ?u = uuidReads t + c"
    by (simp_all add: t')
  show ?thesis
  proof (rule invI)
    have "workers ?u = [AwaitingCrawl jid evs (crawlOutcome w jid (params r))]
        \<and> jobs ?u jid = Some r' \<and> status r' = Running"
      using fields k r' by simp
    then show "workers ?u = [] \<or>
        (\<exists>j evs out r. workers ?u = [AwaitingCrawl j evs out] \<and> jobs ?u j = Some r
            \<and> status r = Running)"
      by blast
    show "isProcessing ?u \<longleftrightarrow> workers ?u \<noteq> []"
      using fields flag by simp
    show "workers ?u = [] \<Longrightarrow> queue ?u = []"
      using fields by simp
    show "distinct (queue ?u)"
      using fields q1 by simp
    show "j \<noteq> [] \<and> (\<exists>r. jobs ?u j = Some r \<and> status r = Queued)"
      if "j \<in> set (queue ?u)" for j
    proof -
      from that have jq: "j \<in> set (queue t)" using fields by simp
      with q2 have "j \<noteq> jid" by auto
      then show ?thesis using q3 [OF jq] fields by simp
    qed
    show "results ?u j = None" if "jobs ?u j = None" for j
      using that fields rs [of j] by (simp split: if_splits)
    show "jobInv w ?u j x" if jx: "jobs ?u j = Some x" for j x
    proof (cases "j = jid")
      case True
      with jx fields have "x = r'" by simp
      moreover from mine(3) obtain n where "n < uuidReads t" "jid = uuid w n" by blast
      then have "\<exists>n<uuidReads ?u. jid = uuid w n"
        unfolding fields by (intro exI [of _ n]) simp
      ultimately show ?thesis
        using True r' fields(1,3) k mine(2) by (simp add: jobInv_def)
    next
      case False
      with jx fields have old: "jobs t j = Some x" by simp
      from others [OF old False] have nr: "status x \<noteq> Running" and ji: "jobInv w t j x"
        by simp_all
      show ?thesis
        by (rule jobInv_frame [OF ji]) (use nr fields in simp_all)
    qed
  qed
qed

lemma createJob_keeps_inv:
  assumes i: "registryInv w s" and u: "inj (uuid w)" and ne: "\<forall>n. uuid w n \<noteq> []"
  shows "registryInv w (snd (createJob w req s))"
proof (cases "isProcessing s")
  case True
  from enqueue_keeps_inv [OF i u ne True, of "date w (dateReads s)" req] True
  show ?thesis by (simp add: createJob_def processQueue_def Let_def)
next
  case False
  let ?jid = "uuid w (uuidReads s)"
  let ?job = "\<lparr>jobId = ?jid, status = Queued, progress = 0, currentStep = Some ''Queued'',
      createdAt = date w (dateReads s), startedAt = None, finishedAt = None,
      errorMessage = None, params = req\<rparr>"
  let ?mid = "s\<lparr>jobs := (jobs s)(?jid \<mapsto> ?job), queue := queue s @ [?jid],
      uuidReads := Suc (uuidReads s), dateReads := Suc (dateReads s)\<rparr>"
  let ?t = "?mid\<lparr>isProcessing := True, queue := []\<rparr>"
  have ws: "workers s = []" using inv_flag [OF i] False by simp
  then have qs: "queue s = []" using inv_idle [OF i] by simp
  have fr: "jobs s ?jid = None" using fresh_id [OF i u] .
  obtain t' k where st: "runJobStart w ?jid ?t = (t', k)"
    by (cases "runJobStart w ?jid ?t")
  have wt: "workers t' = []" using runJobStart_frame [OF st] ws by simp
  have loop: "processQueueLoop w (queue ?mid) (?mid\<lparr>isProcessing := True\<rparr>) = (t', Some k)"
    using st ne qs by simp
  have res: "snd (createJob w req s) = t'\<lparr>workers := [k]\<rparr>"
    using False loop wt by (simp add: createJob_def processQueue_def Let_def)
  have "registryInv w (t'\<lparr>workers := [k]\<rparr>)"
  proof (rule start_keeps_inv [where t = ?t and jid = ?jid and r = ?job])
    show "distinct (queue ?t)" by simp
    show "?jid \<notin> set (queue ?t)" by simp
    show "j \<noteq> [] \<and> (\<exists>r. jobs ?t j = Some r \<and> status r = Queued)"
      if "j \<in> set (queue ?t)" for j
      using that by simp
    show "results ?t j = None" if "jobs ?t j = None" for j
      using that inv_results [OF i, of j] by (simp split: if_splits)
    show "status r \<noteq> Running \<and> jobInv w ?t j r"
      if "jobs ?t j = Some r" "j \<noteq> ?jid" for j r
    proof -
      from that have old: "jobs s j = Some r" by simp
      have ji: "jobInv w s j r" using inv_job [OF i old] .
      have "jobInv w ?t j r"
        by (rule jobInv_frame [OF ji]) (simp_all add: qs)
      then show ?thesis using not_running_when_idle [OF ji ws] by simp
    qed
    show "jobs ?t ?jid = Some ?job" by simp
    show "results ?t ?jid = None" using inv_results [OF i fr] by simp
    show "\<exists>n<uuidReads ?t. ?jid = uuid w n" by auto
    show "isProcessing ?t" by simp
    show "runJobStart w ?jid ?t = (t', k)" using st .
  qed
  then show ?thesis using res by simp
qed

lemma deliver_keeps_inv:
  assumes i: "registryInv w s" and ws: "workers s = [AwaitingCrawl jid (ev # evs) out]"
  shows "registryInv w ((handleStreamEvent jid ev s)\<lparr>workers := [AwaitingCrawl jid evs out]\<rparr>)"
    (is "registryInv w ?u")
proof -
  from inv_workers [OF i] ws obtain r where r: "jobs s jid = Some r" "status r = Running"
    by auto
  let ?r' = "foldEvent (body ev) r"
  have core: "status ?r' = Running" "params ?r' = params r"
    using foldEvent_core [of "body ev" r] r(2) by simp_all
  have ji: "jobInv w s jid r" using inv_job [OF i r(1)] .
  then have out: "out = crawlOutcome w jid (params r)" and nores: "results s jid = None"
    using ws r(2) by (simp_all add: jobInv_def)
  have fields: "workers ?u = [AwaitingCrawl jid evs out]" "queue ?u = queue s"
    "results ?u = results s" "isProcessing ?u = isProcessing s"
    "jobs ?u = (jobs s)(jid \<mapsto> ?r')" "uuidReads ?u = uuidReads s"
    using r(1) by (simp_all add: handleStreamEvent_def)
  show ?thesis
  proof (rule invI)
    have "workers ?u = [AwaitingCrawl jid evs out] \<and> jobs ?u jid = Some ?r'
        \<and> status ?r' = Running"
      using fields core by simp
    then show "workers ?u = [] \<or>
        (\<exists>j evs out r. workers ?u = [AwaitingCrawl j evs out] \<and> jobs ?u j = Some r
            \<and> status r = Running)"
      by blast
    show "isProcessing ?u \<longleftrightarrow> workers ?u \<noteq> []"
      using fields inv_flag [OF i] ws by simp
    show "workers ?u = [] \<Longrightarrow> queue ?u = []"
      using fields by simp
    show "distinct (queue ?u)"
      using fields inv_distinct [OF i] by simp
    show "j \<noteq> [] \<and> (\<exists>r. jobs ?u j = Some r \<and> status r = Queued)"
      if "j \<in> set (queue ?u)" for j
    proof -
      from that have jq: "j \<in> set (queue s)" using fields by simp
      from inv_queue [OF i jq] r have "j \<noteq> jid" by auto
      then show ?thesis using inv_queue [OF i jq] fields by simp
    qed
    show "results ?u j = None" if "jobs ?u j = None" for j
      using that fields inv_results [OF i, of j] by (simp split: if_splits)
    show "jobInv w ?u j x" if jx: "jobs ?u j = Some x" for j x
    proof (cases "j = jid")
      case True
      with jx fields have "x = ?r'" by simp
      moreover from ji have "\<exists>n<uuidReads ?u. jid = uuid w n"
        unfolding fields jobInv_def by blast
      ultimately show ?thesis
        using True core fields(1,3) out nores by (simp add: jobInv_def)
    next
      case False
      with jx fields have old: "jobs s j = Some x" by simp
      have jo: "jobInv w s j x" using inv_job [OF i old] .
      have "status x \<noteq> Running"
        using jo ws False by (auto simp: jobInv_def)
      then show ?thesis
        by (intro jobInv_frame [OF jo]) (simp_all add: fields)
    qed
  qed
qed

lemma settle_keeps_inv:
  assumes i: "registryInv w s" and ws: "workers s = [AwaitingCrawl jid [] out]"
  shows "registryInv w (continueLoop w 0 (runJobSettle w jid out s))"
proof -
  from inv_workers [OF i] ws obtain r where r: "jobs s jid = Some r" "status r = Running"
    by auto
  have ji: "jobInv w s jid r" using inv_job [OF i r(1)] .
  then have out: "out = crawlOutcome w jid (params r)" and nores: "results s jid = None"
    and bound: "\<exists>n<uuidReads s. jid = uuid w n"
    using ws r(2) by (simp_all add: jobInv_def)
  let ?sett = "runJobSettle w jid out s"
  obtain fin where fin: "jobs ?sett = (jobs s)(jid \<mapsto> fin)" "params fin = params r"
    "finishedAt fin \<noteq> None"
    "case out of
       Inr v \<Rightarrow> status fin = Done \<and> results ?sett = (results s)(jid \<mapsto> v)
     | Inl e \<Rightarrow> status fin = Error \<and> errorMessage fin = Some (errorMessageOf e)
          \<and> results ?sett = results s"
    using r(1) by (cases out) (simp_all add: runJobSettle_def)
  have base: "queue ?sett = queue s" "workers ?sett = workers s"
    "isProcessing ?sett = isProcessing s" "uuidReads ?sett = uuidReads s"
    by (cases out; simp add: runJobSettle_def)+
  have other_results: "results ?sett j = results s j" if "j \<noteq> jid" for j
    using fin(4) that by (cases out) simp_all
  have fin_ok: "status fin \<noteq> Running" "status fin \<noteq> Queued"
    using fin(4) by (cases out; simp)+
  have fin_inv: "jobInv w t jid fin"
    if "results t = results ?sett" "uuidReads t = uuidReads s" for t :: service
  proof (cases out)
    case (Inl e)
    with fin(4) have a: "status fin = Error" "errorMessage fin = Some (errorMessageOf e)"
      "results ?sett = results s"
      by simp_all
    have "crawlOutcome w jid (params fin) = Inl e" using out Inl fin(2) by simp
    moreover have "\<exists>n<uuidReads t. jid = uuid w n" using bound that(2) by simp
    ultimately show ?thesis using a that(1) nores fin(3) by (simp add: jobInv_def)
  next
    case (Inr v)
    with fin(4) have a: "status fin = Done" "results ?sett = (results s)(jid \<mapsto> v)"
      by simp_all
    have "crawlOutcome w jid (params fin) = Inr v" using out Inr fin(2) by simp
    moreover have "\<exists>n<uuidReads t. jid = uuid w n" using bound that(2) by simp
    ultimately show ?thesis using a that(1) fin(3) by (simp add: jobInv_def)
  qed
  have others_not_running: "status x \<noteq> Running" if "jobs s j = Some x" "j \<noteq> jid" for j x
    using inv_job [OF i that(1)] ws that(2) by (auto simp: jobInv_def)
  show ?thesis
  proof (cases "queue s")
    case Nil
    let ?u = "?sett\<lparr>queue := [], isProcessing := False, workers := []\<rparr>"
    have eq: "continueLoop w 0 ?sett = ?u"
      using Nil base ws by (simp add: continueLoop_def)
    have "registryInv w ?u"
    proof (rule invI)
      show "workers ?u = [] \<or>
        (\<exists>j evs out r. workers ?u = [AwaitingCrawl j evs out] \<and> jobs ?u j = Some r
            \<and> status r = Running)"
        by simp
      show "isProcessing ?u \<longleftrightarrow> workers ?u \<noteq> []" by simp
      show "workers ?u = [] \<Longrightarrow> queue ?u = []" by simp
      show "distinct (queue ?u)" by simp
      show "j \<noteq> [] \<and> (\<exists>r. jobs ?u j = Some r \<and> status r = Queued)"
        if "j \<in> set (queue ?u)" for j
        using that by simp
      show "results ?u j = None" if "jobs ?u j = None" for j
      proof -
        from that fin(1) have "j \<noteq> jid" "jobs s j = None" by (auto split: if_splits)
        then show ?thesis using other_results [of j] inv_results [OF i, of j] by simp
      qed
      show "jobInv w ?u j x" if jx: "jobs ?u j = Some x" for j x
      proof (cases "j = jid")
        case True
        with jx fin(1) have "x = fin" by simp
        then show ?thesis using True fin_inv [of ?u] base by simp
      next
        case False
        with jx fin(1) have old: "jobs s j = Some x" by simp
        have jo: "jobInv w s j x" using inv_job [OF i old] .
        have "status x \<noteq> Queued"
          using jo Nil by (auto simp: jobInv_def)
        then show ?thesis
          using others_not_running [OF old False] other_results [OF False] base
          by (intro jobInv_frame [OF jo]) simp_all
      qed
    qed
    then show ?thesis using eq by simp
  next
    case (Cons nxt rest)
    have nq: "nxt \<in> set (queue s)" using Cons by simp
    from inv_queue [OF i nq] obtain rn where rn: "nxt \<noteq> []" "jobs s nxt = Some rn"
      "status rn = Queued"
      by blast
    have neq: "nxt \<noteq> jid" using rn r by auto
    let ?t = "?sett\<lparr>queue := rest\<rparr>"
    obtain t' k where st: "runJobStart w nxt ?t = (t', k)"
      by (cases "runJobStart w nxt ?t")
    have wt: "workers t' = [AwaitingCrawl jid [] out]"
      using runJobStart_frame [OF st] base ws by simp
    have eq: "continueLoop w 0 ?sett = t'\<lparr>workers := [k]\<rparr>"
      using Cons base rn(1) st wt by (simp add: continueLoop_def)
    have dq: "distinct (nxt # rest)" using inv_distinct [OF i] Cons by simp
    have "registryInv w (t'\<lparr>workers := [k]\<rparr>)"
    proof (rule start_keeps_inv [where t = ?t and jid = nxt and r = rn])
      show "distinct (queue ?t)" using dq by simp
      show "nxt \<notin> set (queue ?t)" using dq by simp
      show "j \<noteq> [] \<and> (\<exists>r. jobs ?t j = Some r \<and> status r = Queued)"
        if "j \<in> set (queue ?t)" for j
      proof -
        from that have jq: "j \<in> set (queue s)" using Cons by simp
        from inv_queue [OF i jq] r have "j \<noteq> jid" by auto
        then show ?thesis using inv_queue [OF i jq] fin(1) by simp
      qed
      show "results ?t j = None" if "jobs ?t j = None" for j
      proof -
        from that fin(1) have "j \<noteq> jid" "jobs s j = None" by (auto split: if_splits)
        then show ?thesis using other_results [of j] inv_results [OF i, of j] by simp
      qed
      show "status x \<noteq> Running \<and> jobInv w ?t j x"
        if jx: "jobs ?t j = Some x" and jn: "j \<noteq> nxt" for j x
      proof (cases "j = jid")
        case True
        with jx fin(1) have "x = fin" by simp
        then show ?thesis using True fin_inv [of ?t] fin_ok base by simp
      next
        case False
        with jx fin(1) have old: "jobs s j = Some x" by simp
        have jo: "jobInv w s j x" using inv_job [OF i old] .
        have "jobInv w ?t j x"
          using others_not_running [OF old False] other_results [OF False] base jn Cons
          by (intro jobInv_frame [OF jo]) auto
        then show ?thesis using others_not_running [OF old False] by simp
      qed
      show "jobs ?t nxt = Some rn" using rn(2) neq fin(1) by simp
      show "results ?t nxt = None"
        using inv_job [OF i rn(2)] rn(3) other_results [OF neq] by (simp add: jobInv_def)
      show "\<exists>n<uuidReads ?t. nxt = uuid w n"
        using inv_job [OF i rn(2)] base by (simp add: jobInv_def)
      show "isProcessing ?t" using base inv_flag [OF i] ws by simp
      show "runJobStart w nxt ?t = (t', k)" using st .
    qed
    then show ?thesis using eq by simp
  qed
qed

lemma resume_keeps_inv:
  assumes i: "registryInv w s"
  shows "registryInv w (resume w n s)"
proof (cases "length (workers s) \<le> n")
  case True
  then show ?thesis using i by (simp add: resume_def)
next
  case False
  with inv_workers [OF i] obtain jid evs out where
    ws: "workers s = [AwaitingCrawl jid evs out]" and n: "n = 0"
    by (cases "workers s = []") auto
  show ?thesis
  proof (cases evs)
    case Nil
    then show ?thesis
      using settle_keeps_inv [OF i, of jid out] ws n by (simp add: resume_def)
  next
    case (Cons ev rest)
    then show ?thesis
      using deliver_keeps_inv [OF i, of jid ev rest out] ws n by (simp add: resume_def)
  qed
qed

lemma step_keeps_inv:
  assumes "registryInv w s" "inj (uuid w)" "\<forall>n. uuid w n \<noteq> []"
  shows "registryInv w (step w a s)"
  using assms by (cases a) (simp_all add: createJob_keeps_inv resume_keeps_inv)

lemma steps_keep_inv:
  assumes "registryInv w s" "inj (uuid w)" "\<forall>n. uuid w n \<noteq> []"
  shows "registryInv w (fold (step w) acts s)"
  using assms(1)
  by (induction acts arbitrary: s) (simp_all add: step_keeps_inv assms(2,3))

lemma exec_inv:
  assumes "inj (uuid w)" "\<forall>n. uuid w n \<noteq> []"
  shows "registryInv w (exec w acts)"
  unfolding exec_def using steps_keep_inv [OF inv_initial assms] .

lemma drain_keeps_inv: "registryInv w s \<Longrightarrow> registryInv w (drain w s)"
proof (induction w s rule: drain.induct)
  case (1 w s)
  show ?case
  proof (cases "workers s = []")
    case True
    then show ?thesis using "1.prems" by simp
  next
    case False
    then show ?thesis
      using "1.IH" [OF False resume_keeps_inv [OF "1.prems"]] by simp
  qed
qed

lemma drain_idle: "workers (drain w s) = []"
proof (induction w s rule: drain.induct)
  case (1 w s)
  then show ?case by (cases "workers s = []") simp_all
qed

subsection \<open>How a record changes\<close>

lemma moves_refl: "moves r r"
  by (simp add: moves_def edge_def)


lemma resume_moves:
  assumes i: "registryInv w s" and jr: "jobs s j = Some r"
  shows "\<exists>r'. jobs (resume w n s) j = Some r' \<and> moves r r'"
proof (cases "length (workers s) \<le> n")
  case True
  then show ?thesis using jr moves_refl by (simp add: resume_def)
next
  case False
  with inv_workers [OF i] obtain jid evs out x where
    ws: "workers s = [AwaitingCrawl jid evs out]" and n: "n = 0"
    and x: "jobs s jid = Some x" "status x = Running"
    by (cases "workers s = []") auto
  have same: "\<exists>r'. m j = Some r' \<and> moves r r'" if "m j = jobs s j" for m
    using that jr moves_refl by simp
  show ?thesis
  proof (cases evs)
    case (Cons ev rest)
    let ?x' = "foldEvent (body ev) x"
    have res: "jobs (resume w n s) = (jobs s)(jid \<mapsto> ?x')"
      using ws n Cons x(1) by (simp add: resume_def handleStreamEvent_def)
    show ?thesis
    proof (cases "j = jid")
      case True
      then have "r = x" using jr x(1) by simp
      then have "moves r ?x'"
        using foldEvent_core [of "body ev" x] x(2)
        by (simp add: moves_def edge_def terminalStatus_def)
      then show ?thesis using res True by simp
    next
      case False
      then show ?thesis using same [of "jobs (resume w n s)"] res by simp
    qed
  next
    case Nil
    let ?sett = "runJobSettle w jid out s"
    obtain fin where fin: "jobs ?sett = (jobs s)(jid \<mapsto> fin)" "params fin = params x"
      "status fin = Done \<or> status fin = Error"
      using x(1) by (cases out) (simp_all add: runJobSettle_def)
    have base: "queue ?sett = queue s" "workers ?sett = workers s"
      by (cases out; simp add: runJobSettle_def)+
    have rs: "resume w n s = continueLoop w 0 ?sett"
      using ws n Nil by (simp add: resume_def)
    have mx: "moves x fin"
      using fin(2,3) x(2) by (auto simp: moves_def edge_def terminalStatus_def)
    show ?thesis
    proof (cases "queue s")
      case Nil
      then have "jobs (resume w n s) = (jobs s)(jid \<mapsto> fin)"
        using rs base fin(1) by (simp add: continueLoop_def)
      then show ?thesis
        using same [of "jobs (resume w n s)"] mx jr x(1) by (cases "j = jid") simp_all
    next
      case (Cons nxt rest)
      have nq: "nxt \<in> set (queue s)" using Cons by simp
      from inv_queue [OF i nq] obtain rn where rn: "nxt \<noteq> []" "jobs s nxt = Some rn"
        "status rn = Queued"
        by blast
      have neq: "nxt \<noteq> jid" using rn x by auto
      let ?t = "?sett\<lparr>queue := rest\<rparr>"
      obtain t' k where st: "runJobStart w nxt ?t = (t', k)"
        by (cases "runJobStart w nxt ?t")
      have "jobs ?t nxt = Some rn" using rn(2) neq fin(1) by simp
      from runJobStart_jobs [OF this st] obtain rn' where rn':
        "jobs t' = (jobs ?t)(nxt \<mapsto> rn')" "status rn' = Running" "params rn' = params rn"
        by blast
      have mn: "moves rn rn'"
        using rn' rn(3) by (simp add: moves_def edge_def terminalStatus_def)
      have "resume w n s = t'\<lparr>workers := (workers t')[0 := k]\<rparr>"
        using rs Cons base rn(1) st by (simp add: continueLoop_def)
      then have res: "jobs (resume w n s) = ((jobs s)(jid \<mapsto> fin))(nxt \<mapsto> rn')"
        using rn'(1) fin(1) by simp
      show ?thesis
      proof (cases "j = nxt")
        case True
        then show ?thesis using res mn jr rn(2) by simp
      next
        case False
        then show ?thesis
          using same [of "jobs (resume w n s)"] res mx jr x(1) by (cases "j = jid") simp_all
      qed
    qed
  qed
qed



lemma drain_jobs:
  "registryInv w s \<Longrightarrow> jobs s j = Some r \<Longrightarrow>
   \<exists>r'. jobs (drain w s) j = Some r' \<and> params r' = params r
        \<and> (terminalStatus (status r) \<longrightarrow> r' = r)"
proof (induction w s arbitrary: r rule: drain.induct)
  case (1 w s)
  show ?case
  proof (cases "workers s = []")
    case True
    then show ?thesis using "1.prems" by simp
  next
    case False
    from resume_moves [OF "1.prems", of 0] obtain r1 where
      r1: "jobs (resume w 0 s) j = Some r1" "moves r r1" by blast
    from "1.IH" [OF False resume_keeps_inv [OF "1.prems"(1)] r1(1)] obtain r' where
      "jobs (drain w (resume w 0 s)) j = Some r'" "params r' = params r1"
      "terminalStatus (status r1) \<longrightarrow> r' = r1"
      by blast
    then show ?thesis using False r1(2) by (auto simp: moves_def)
  qed
qed

lemma idle_job_ended:
  assumes i: "registryInv w s" and idle: "workers s = []" and jr: "jobs s j = Some r"
  shows "finishedAt r \<noteq> None \<and>
     (case crawlOutcome w j (params r) of
        Inl e \<Rightarrow> status r = Error \<and> errorMessage r = Some (errorMessageOf e)
                  \<and> getResult s j = Undefined
      | Inr v \<Rightarrow> status r = Done \<and> getResult s j = v)"
proof -
  have ji: "jobInv w s j r" using inv_job [OF i jr] .
  have q: "queue s = []" using inv_idle [OF i idle] .
  show ?thesis
  proof (cases "status r")
    case Queued
    then show ?thesis using ji q by (simp add: jobInv_def)
  next
    case Running
    then show ?thesis using ji idle by (simp add: jobInv_def)
  next
    case Done
    then show ?thesis using ji by (auto simp: jobInv_def getResult_def)
  next
    case Error
    then show ?thesis using ji by (auto simp: jobInv_def getResult_def)
  qed
qed

lemma drain_outcome:
  assumes i: "registryInv w s" and jr: "jobs s j = Some r"
  shows "\<exists>r'. jobs (drain w s) j = Some r' \<and> params r' = params r \<and> finishedAt r' \<noteq> None \<and>
     (terminalStatus (status r) \<longrightarrow> r' = r) \<and>
     (case crawlOutcome w j (params r) of
        Inl e \<Rightarrow> status r' = Error \<and> errorMessage r' = Some (errorMessageOf e)
                  \<and> getResult (drain w s) j = Undefined
      | Inr v \<Rightarrow> status r' = Done \<and> getResult (drain w s) j = v)"
proof -
  from drain_jobs [OF i jr] obtain r' where r': "jobs (drain w s) j = Some r'"
    "params r' = params r" "terminalStatus (status r) \<longrightarrow> r' = r" by blast
  from idle_job_ended [OF drain_keeps_inv [OF i] drain_idle r'(1)] r'
  show ?thesis by simp
qed

lemma sampleWorld_ok: "inj (uuid sampleWorld)" "\<forall>n. uuid sampleWorld n \<noteq> []"
  by (simp_all add: sampleWorld_def inj_def)

text \<open>
  A job whose site the handler lookup does not find ends in error with the
  unsupported-site message.
\<close>

lemma unsupported_job_ends_in_error:
  assumes u: "inj (uuid w)" and ne: "\<forall>n. uuid w n \<noteq> []"
    and jr: "jobs (exec w acts) j = Some r"
    and nf: "\<not> handlerFound (siteHandlers (category (params r))) (site (params r))"
  shows "\<exists>r'. jobs (drain w (exec w acts)) j = Some r' \<and> status r' = Error
     \<and> errorMessage r' = Some (unsupportedMessage SingleMode (params r))"
proof -
  have i: "registryInv w (exec w acts)" using exec_inv [OF u ne] .
  have co: "crawlOutcome w j (params r) = Inl (ErrorObject (unsupportedMessage SingleMode (params r)))"
    using nf by (simp add: crawlOutcome_def crawl_def outcome_orchestrate)
  from drain_outcome [OF i jr] obtain r' where r':
    "jobs (drain w (exec w acts)) j = Some r'"
    "case crawlOutcome w j (params r) of
       Inl e \<Rightarrow> status r' = Error \<and> errorMessage r' = Some (errorMessageOf e)
                 \<and> getResult (drain w (exec w acts)) j = Undefined
     | Inr v \<Rightarrow> status r' = Done \<and> getResult (drain w (exec w acts)) j = v"
    by blast
  from r'(2) have "status r' = Error"
    "errorMessage r' = Some (unsupportedMessage SingleMode (params r))"
    unfolding co by (simp_all add: errorMessageOf_def)
  then show ?thesis using r'(1) by blast
qed

subsection \<open>Submission\<close>

text \<open>
  What \<^verbatim>\<open>createJob\<close> returns in a reachable state: a record under a fresh id, with the
  request and progress 0, that \<^verbatim>\<open>getJob\<close> returns as well; its status is queued when the
  service is processing and running when it is not.
\<close>

lemma createJob_snapshot:
  assumes i: "registryInv w s" and u: "inj (uuid w)" and ne: "\<forall>n. uuid w n \<noteq> []"
  shows "jobs s (uuid w (uuidReads s)) = None
     \<and> jobId (fst (createJob w req s)) = uuid w (uuidReads s)
     \<and> params (fst (createJob w req s)) = req
     \<and> progress (fst (createJob w req s)) = 0
     \<and> status (fst (createJob w req s)) = (if isProcessing s then Queued else Running)
     \<and> getJob (snd (createJob w req s)) (uuid w (uuidReads s)) = Some (fst (createJob w req s))"
proof -
  let ?jid = "uuid w (uuidReads s)"
  have fr: "jobs s ?jid = None" using fresh_id [OF i u] .
  show ?thesis
  proof (cases "isProcessing s")
    case True
    then show ?thesis using fr
      by (simp add: createJob_def processQueue_def Let_def getJob_def)
  next
    case False
    then have qs: "queue s = []" using inv_flag [OF i] inv_idle [OF i] by simp
    have nonempty: "?jid \<noteq> []" using ne by simp
    let ?run = "crawl req True (uuid w (Suc (uuidReads s))) (behaviour w ?jid)"
    have sync: "syncEvents ?run = [] \<or> (\<exists>x. syncEvents ?run = [x]
        \<and> body x = ProgressEv (startingMessage SingleMode req) (Some 0))"
      by (simp add: crawl_def syncEvents_orchestrate)
    then show ?thesis
    proof
      assume "syncEvents ?run = []"
      then show ?thesis using False qs fr nonempty
        by (simp add: createJob_def processQueue_def Let_def getJob_def runJobStart_def
            serviceCrawl_run)
    next
      assume "\<exists>x. syncEvents ?run = [x]
        \<and> body x = ProgressEv (startingMessage SingleMode req) (Some 0)"
      then obtain x where "syncEvents ?run = [x]"
        "body x = ProgressEv (startingMessage SingleMode req) (Some 0)" by blast
      then show ?thesis using False qs fr nonempty
        by (simp add: createJob_def processQueue_def Let_def getJob_def runJobStart_def
            serviceCrawl_run handleStreamEvent_def)
    qed
  qed
qed

text \<open>
  Claim C1 says that the snapshot \<^verbatim>\<open>createJob\<close> returns, and an immediate \<^verbatim>\<open>getJob\<close>, show
  status queued and progress 0. \<^verbatim>\<open>createJob\<close> calls \<^verbatim>\<open>processQueue\<close> before it copies the
  record, and an idle \<^verbatim>\<open>processQueue\<close> runs as far as the first suspension inside
  \<^verbatim>\<open>runJob\<close>: on a service that is not processing, the record is already running, with
  the step text of the first progress event, when the snapshot is taken. This is the
  first submission to a fresh service.
\<close>

theorem first_submission_is_running:
  "fst (createJob sampleWorld bookingHotel initial) =
     \<lparr>jobId = ''id-'', status = Running, progress = 0,
      currentStep = Some ''Starting crawl for booking...'', createdAt = tick 0,
      startedAt = Some (tick 1), finishedAt = None, errorMessage = None,
      params = bookingHotel\<rparr>
   \<and> map_option status (getJob (snd (createJob sampleWorld bookingHotel initial)) ''id-'') =
       Some Running"
  by code_simp

subsection \<open>Single flight\<close>

text \<open>
  Claim C2. In every state reached from the fresh service by submissions and worker
  steps, at most one job record has status running and at most one invocation of
  \<^verbatim>\<open>processQueue\<close> is suspended; a \<^verbatim>\<open>createJob\<close> made while \<^verbatim>\<open>isProcessing\<close> is set leaves
  the suspended invocations as they are, appends the new id to the queue and returns a
  queued snapshot. The ids drawn from \<^verbatim>\<open>randomUUID\<close> are taken to be distinct and
  non-empty.
\<close>

theorem single_flight:
  assumes u: "inj (uuid w)" and ne: "\<forall>n. uuid w n \<noteq> []"
  shows "(\<forall>j k r r'. jobs (exec w acts) j = Some r \<and> status r = Running
            \<and> jobs (exec w acts) k = Some r' \<and> status r' = Running \<longrightarrow> j = k)
     \<and> length (workers (exec w acts)) \<le> 1
     \<and> (isProcessing (exec w acts) \<longrightarrow>
          workers (snd (createJob w req (exec w acts))) = workers (exec w acts)
          \<and> queue (snd (createJob w req (exec w acts))) =
              queue (exec w acts) @ [uuid w (uuidReads (exec w acts))]
          \<and> status (fst (createJob w req (exec w acts))) = Queued)"
proof -
  let ?s = "exec w acts"
  have i: "registryInv w ?s" using exec_inv [OF u ne] .
  have one: "j = k"
    if "jobs ?s j = Some r" "status r = Running" "jobs ?s k = Some r'" "status r' = Running"
    for j k r r'
  proof -
    from inv_job [OF i that(1)] that(2) obtain evs where
      "workers ?s = [AwaitingCrawl j evs (crawlOutcome w j (params r))]"
      by (auto simp: jobInv_def)
    moreover from inv_job [OF i that(3)] that(4) obtain evs' where
      "workers ?s = [AwaitingCrawl k evs' (crawlOutcome w k (params r'))]"
      by (auto simp: jobInv_def)
    ultimately show ?thesis by simp
  qed
  have len: "length (workers ?s) \<le> 1"
    using inv_workers [OF i] by auto
  have busy: "workers (snd (createJob w req ?s)) = workers ?s
      \<and> queue (snd (createJob w req ?s)) = queue ?s @ [uuid w (uuidReads ?s)]
      \<and> status (fst (createJob w req ?s)) = Queued"
    if "isProcessing ?s"
    using that by (simp add: createJob_def processQueue_def Let_def)
  show ?thesis using one len busy by blast
qed

theorem single_flight_witness:
  "inj (uuid sampleWorld) \<and> (\<forall>n. uuid sampleWorld n \<noteq> [])
   \<and> isProcessing (exec sampleWorld twoSubmissions)
   \<and> map_option status (jobs (exec sampleWorld twoSubmissions) ''id-'') = Some Running
   \<and> map_option status (jobs (exec sampleWorld twoSubmissions) ''id-xx'') = Some Queued
   \<and> length (workers (exec sampleWorld twoSubmissions)) = 1
   \<and> workers (snd (createJob sampleWorld bookingHotel (exec sampleWorld twoSubmissions))) =
       workers (exec sampleWorld twoSubmissions)
   \<and> queue (snd (createJob sampleWorld bookingHotel (exec sampleWorld twoSubmissions))) =
       [''id-xx'', ''id-xxx'']"
proof -
  have c: "isProcessing (exec sampleWorld twoSubmissions)
   \<and> map_option status (jobs (exec sampleWorld twoSubmissions) ''id-'') = Some Running
   \<and> map_option status (jobs (exec sampleWorld twoSubmissions) ''id-xx'') = Some Queued
   \<and> length (workers (exec sampleWorld twoSubmissions)) = 1
   \<and> queue (exec sampleWorld twoSubmissions) = [''id-xx'']
   \<and> uuid sampleWorld (uuidReads (exec sampleWorld twoSubmissions)) = ''id-xxx''"
    by code_simp
  from single_flight [OF sampleWorld_ok, of twoSubmissions bookingHotel] c
  show ?thesis using sampleWorld_ok by simp
qed

subsection \<open>Status transitions\<close>



subsection \<open>Results\<close>

text \<open>
  Claim C4. In every reachable state and for every id, \<^verbatim>\<open>getResult\<close> returns a stored result
  (something other than \<^verbatim>\<open>undefined\<close>) if and only if \<^verbatim>\<open>getJob\<close> returns a record whose
  status is done.
\<close>

theorem result_iff_done:
  assumes u: "inj (uuid w)" and ne: "\<forall>n. uuid w n \<noteq> []"
  shows "getResult (exec w acts) j \<noteq> Undefined \<longleftrightarrow>
     (\<exists>r. getJob (exec w acts) j = Some r \<and> status r = Done)"
proof -
  let ?s = "exec w acts"
  have i: "registryInv w ?s" using exec_inv [OF u ne] .
  show ?thesis
  proof (cases "jobs ?s j")
    case None
    then show ?thesis using inv_results [OF i None] by (simp add: getResult_def getJob_def)
  next
    case (Some r)
    have ji: "jobInv w ?s j r" using inv_job [OF i Some] .
    show ?thesis
    proof (cases "status r")
      case Done
      with ji obtain v where "crawlOutcome w j (params r) = Inr v" "results ?s j = Some v"
        by (auto simp: jobInv_def)
      then show ?thesis
        using crawlOutcome_truthy Some Done by (simp add: getResult_def getJob_def)
    qed (use ji Some in \<open>simp_all add: jobInv_def getResult_def getJob_def\<close>)
  qed
qed

theorem result_iff_done_witness:
  "inj (uuid sampleWorld) \<and> (\<forall>n. uuid sampleWorld n \<noteq> [])
   \<and> getResult (exec sampleWorld bothRun) ''id-xx'' = Single ''Hotel B''
   \<and> map_option status (getJob (exec sampleWorld bothRun) ''id-xx'') = Some Done
   \<and> getResult (exec sampleWorld bothRun) ''id-'' = Undefined
   \<and> map_option status (getJob (exec sampleWorld bothRun) ''id-'') = Some Error"
proof -
  have c: "getResult (exec sampleWorld bothRun) ''id-xx'' = Single ''Hotel B''
   \<and> map_option status (getJob (exec sampleWorld bothRun) ''id-xx'') = Some Done
   \<and> getResult (exec sampleWorld bothRun) ''id-'' = Undefined
   \<and> map_option status (getJob (exec sampleWorld bothRun) ''id-'') = Some Error"
    by code_simp
  from result_iff_done [OF sampleWorld_ok, of bothRun "''id-xx''"] c
  show ?thesis using sampleWorld_ok by simp
qed

subsection \<open>One failing job does not stop the queue\<close>



subsection \<open>Persistence failures\<close>

text \<open>
  Claim C10. When the crawler's \<^verbatim>\<open>crawl\<close> of a job resolves with \<open>v\<close>, then whatever the
  persistence handler does: \<^verbatim>\<open>persist\<close> resolves, \<^verbatim>\<open>CrawlService.crawl\<close> resolves with \<open>v\<close>, an
  error thrown by the persistence handler is the one that is logged, and once the worker
  loop has come to rest the job is done, with \<^verbatim>\<open>finishedAt\<close> stamped and \<open>v\<close> stored as
  its result.
\<close>

theorem persistence_failure_is_caught:
  assumes u: "inj (uuid w)" and ne: "\<forall>n. uuid w n \<noteq> []"
    and jr: "jobs (exec w acts) j = Some r"
    and ok: "outcome (crawl (params r) True rid (behaviour w j)) = Inr v"
  shows "fst (persist (params r) v (behaviour w j)) = Inr ()
     \<and> outcome (fst (serviceCrawl (params r) True rid (behaviour w j))) = Inr v
     \<and> (persistHandlers (category (params r)) \<longrightarrow>
          snd (serviceCrawl (params r) True rid (behaviour w j)) = persistThrows (behaviour w j))
     \<and> (\<exists>r'. jobs (drain w (exec w acts)) j = Some r' \<and> status r' = Done
           \<and> finishedAt r' \<noteq> None)
     \<and> getResult (drain w (exec w acts)) j = v"
proof -
  have i: "registryInv w (exec w acts)" using exec_inv [OF u ne] .
  have co: "crawlOutcome w j (params r) = Inr v"
    using ok outcome_crawl_any [of "params r" True "[]" "behaviour w j" True rid]
    by (simp add: crawlOutcome_def)
  have lg: "snd (serviceCrawl (params r) True rid (behaviour w j)) = persistThrows (behaviour w j)"
    if "persistHandlers (category (params r))"
    using that ok
    by (simp add: serviceCrawl_def persist_def persistHandler_def Let_def split: option.splits)
  from drain_outcome [OF i jr] obtain r' where r':
    "jobs (drain w (exec w acts)) j = Some r'" "finishedAt r' \<noteq> None"
    "case crawlOutcome w j (params r) of
       Inl e \<Rightarrow> status r' = Error \<and> errorMessage r' = Some (errorMessageOf e)
                 \<and> getResult (drain w (exec w acts)) j = Undefined
     | Inr v \<Rightarrow> status r' = Done \<and> getResult (drain w (exec w acts)) j = v"
    by blast
  from r'(3) have "status r' = Done" "getResult (drain w (exec w acts)) j = v"
    unfolding co by simp_all
  moreover note r'(1,2)
  moreover have "outcome (fst (serviceCrawl (params r) True rid (behaviour w j))) = Inr v"
    using ok by (simp add: serviceCrawl_run)
  moreover note persist_resolves [of "params r" v "behaviour w j"] lg
  ultimately show ?thesis by blast
qed

theorem persistence_failure_is_caught_witness:
  "inj (uuid sampleWorld) \<and> (\<forall>n. uuid sampleWorld n \<noteq> [])
   \<and> jobs (exec sampleWorld twoSubmissions) ''id-xx'' = Some queuedJob
   \<and> persistThrows (behaviour sampleWorld ''id-xx'') = Some (ErrorObject ''ECONNREFUSED'')
   \<and> outcome (crawl (params queuedJob) True ''run-2'' (behaviour sampleWorld ''id-xx'')) =
       Inr (Single ''Hotel B'')
   \<and> snd (serviceCrawl (params queuedJob) True ''run-2'' (behaviour sampleWorld ''id-xx'')) =
       Some (ErrorObject ''ECONNREFUSED'')
   \<and> getResult (drain sampleWorld (exec sampleWorld twoSubmissions)) ''id-xx'' =
       Single ''Hotel B''"
proof -
  have c: "jobs (exec sampleWorld twoSubmissions) ''id-xx'' = Some queuedJob"
    by code_simp
  have o: "outcome (crawl (params queuedJob) True ''run-2'' (behaviour sampleWorld ''id-xx'')) =
       Inr (Single ''Hotel B'')"
    by code_simp
  have p: "persistThrows (behaviour sampleWorld ''id-xx'') = Some (ErrorObject ''ECONNREFUSED'')
    \<and> persistHandlers (category (params queuedJob))"
    by code_simp
  from persistence_failure_is_caught [OF sampleWorld_ok c o] p
  show ?thesis using sampleWorld_ok c o by simp
qed

end
